theory Spec2Isabelle
  imports Main "HOL-Library.Multiset" "HOL-Library.AList"
begin

section \<open>Data model\<close>

text \<open>
  A card is the Python tuple \<^verbatim>\<open>(rank, suit, value)\<close>. Python integers are unbounded,
  so every amount of money and every card value is an \<^typ>\<open>int\<close>.
\<close>

type_synonym card = "string \<times> string \<times> int"

text \<open>The third component of the tuple, \<^verbatim>\<open>card[2]\<close>.\<close>

definition card_value :: "card \<Rightarrow> int" where
  "card_value c = snd (snd c)"

text \<open>
  The exceptions the modelled code can raise: \<^verbatim>\<open>list.pop()\<close> on an empty list and an
  index out of range raise \<^verbatim>\<open>IndexError\<close>, a missing dictionary key raises
  \<^verbatim>\<open>KeyError\<close>, an attribute of \<^verbatim>\<open>None\<close> raises \<^verbatim>\<open>AttributeError\<close>, and
  \<^verbatim>\<open>list.remove\<close> of an absent element raises \<^verbatim>\<open>ValueError\<close>.
\<close>

datatype error = IndexError | KeyError | AttributeError | ValueError

text \<open>
  Players are shared mutable objects. A player object is named by a reference, and the
  store maps every reference to the current contents of the object.
\<close>

type_synonym ref = nat

record Player =
  first_name :: string
  last_name :: string
  email :: string
  player_id :: int
  player_type :: string
  money_left :: int
  rounds_left :: int
  history :: "(string \<times> int) list"

type_synonym heap = "ref \<Rightarrow> Player"

record Seat =
  seat_index :: nat
  player :: "ref option"

record Table =
  table_id :: int
  num_seats :: nat
  seats_list :: "Seat list"
  current_round_number :: int

record Casino =
  casino_name :: string
  tables :: "Table list"
  finished_players :: "ref list"
  casino_profit :: int
  total_hands_played :: int

section \<open>deck.py\<close>

definition CARD_LIST :: "(string \<times> int) list" where
  "CARD_LIST = [(''A'', 11), (''2'', 2), (''3'', 3), (''4'', 4), (''5'', 5), (''6'', 6),
     (''7'', 7), (''8'', 8), (''9'', 9), (''10'', 10), (''J'', 10), (''Q'', 10), (''K'', 10)]"

definition SUITS :: "string list" where
  "SUITS = [''Heart'', ''Spade'', ''Club'', ''Diamond'']"

text \<open>The object has the single field \<^verbatim>\<open>self.deck\<close>, a list of cards.\<close>

type_synonym Deck = "card list"

text \<open>The two inner loops of \<^verbatim>\<open>Deck.__init__\<close>: one pass over the suits and the ranks.\<close>

definition one_deck :: "card list" where
  "one_deck = concat (map (\<lambda>suit. map (\<lambda>(c, v). (c, suit, v)) CARD_LIST) SUITS)"

text \<open>\<^verbatim>\<open>Deck.__init__\<close>: the outer loop runs \<^verbatim>\<open>num_decks\<close> times, appending at the end.\<close>

definition Deck_init :: "nat \<Rightarrow> Deck" where
  "Deck_init n = concat (replicate n one_deck)"

text \<open>
  \<^verbatim>\<open>Deck.draw_card\<close>: \<^verbatim>\<open>self.deck.pop()\<close> removes and returns the last element of
  the list, and raises \<^verbatim>\<open>IndexError\<close> when the list is empty.
\<close>

definition draw_card :: "Deck \<Rightarrow> error + (card \<times> Deck)" where
  "draw_card d = (if d = [] then Inl IndexError else Inr (last d, butlast d))"

text \<open>
  \<^verbatim>\<open>Deck.shuffle_deck\<close> calls \<^verbatim>\<open>random.shuffle\<close> three times. The random source is
  a parameter: \<open>sh k\<close> is what the \<open>k\<close>-th call of \<^verbatim>\<open>random.shuffle\<close> makes of the list
  it is given. A shuffle permutes its argument.
\<close>

definition shuffle_deck :: "(nat \<Rightarrow> card list \<Rightarrow> card list) \<Rightarrow> Deck \<Rightarrow> Deck" where
  "shuffle_deck sh d = sh 2 (sh 1 (sh 0 d))"

definition is_shuffle :: "(nat \<Rightarrow> card list \<Rightarrow> card list) \<Rightarrow> bool" where
  "is_shuffle sh = (\<forall>k d. mset (sh k d) = mset d)"

text \<open>A test driver: \<open>n\<close> successive calls of \<^verbatim>\<open>draw_card\<close>, collecting the cards drawn.\<close>

fun draw_n :: "nat \<Rightarrow> Deck \<Rightarrow> error + (card list \<times> Deck)" where
  "draw_n 0 d = Inr ([], d)"
| "draw_n (Suc n) d =
     (case draw_card d of
        Inl e \<Rightarrow> Inl e
      | Inr (c, d') \<Rightarrow>
          (case draw_n n d' of
             Inl e \<Rightarrow> Inl e
           | Inr (cs, d'') \<Rightarrow> Inr (c # cs, d'')))"

section \<open>table.py\<close>

text \<open>\<^verbatim>\<open>Table.__init__\<close>: seat \<open>i\<close> of the list carries the index \<open>i\<close> and is empty.\<close>

definition Table_init :: "int \<Rightarrow> nat \<Rightarrow> Table" where
  "Table_init tid n =
     \<lparr>table_id = tid, num_seats = n,
      seats_list = map (\<lambda>i. \<lparr>seat_index = i, player = None\<rparr>) [0..<n],
      current_round_number = 1\<rparr>"

text \<open>
  The loop of \<^verbatim>\<open>Table.remove_finished_players\<close> over the seats, in order: the store is
  only read, the seats and \<^verbatim>\<open>casino.finished_players\<close> are updated.
\<close>

fun remove_finished_loop :: "heap \<Rightarrow> Seat list \<Rightarrow> ref list \<Rightarrow> Seat list \<times> ref list" where
  "remove_finished_loop h [] fin = ([], fin)"
| "remove_finished_loop h (s # ss) fin =
     (case player s of
        None \<Rightarrow> (let (ss', fin') = remove_finished_loop h ss fin in (s # ss', fin'))
      | Some p \<Rightarrow>
          (if money_left (h p) < 100 \<or> rounds_left (h p) \<le> 0
           then (let (ss', fin') = remove_finished_loop h ss (fin @ [p])
                 in (s\<lparr>player := None\<rparr> # ss', fin'))
           else (let (ss', fin') = remove_finished_loop h ss fin in (s # ss', fin'))))"

definition remove_finished_players :: "heap \<Rightarrow> Table \<Rightarrow> Casino \<Rightarrow> Table \<times> Casino" where
  "remove_finished_players h t c =
     (let (ss', fin') = remove_finished_loop h (seats_list t) (finished_players c)
      in (t\<lparr>seats_list := ss'\<rparr>, c\<lparr>finished_players := fin'\<rparr>))"

text \<open>
  The loop of \<^verbatim>\<open>Table.fill_empty_seats\<close>: \<^verbatim>\<open>player_pool.pop(0)\<close> removes and returns
  the first element of the waiting pool.
\<close>

fun fill_empty_loop :: "Seat list \<Rightarrow> ref list \<Rightarrow> Seat list \<times> ref list" where
  "fill_empty_loop [] pool = ([], pool)"
| "fill_empty_loop (s # ss) pool =
     (if player s = None \<and> length pool > 0
      then (let (ss', pool') = fill_empty_loop ss (tl pool)
            in (s\<lparr>player := Some (hd pool)\<rparr> # ss', pool'))
      else (let (ss', pool') = fill_empty_loop ss pool in (s # ss', pool')))"

definition fill_empty_seats :: "Table \<Rightarrow> ref list \<Rightarrow> Table \<times> ref list" where
  "fill_empty_seats t pool =
     (let (ss', pool') = fill_empty_loop (seats_list t) pool
      in (t\<lparr>seats_list := ss'\<rparr>, pool'))"

section \<open>blackjack.py\<close>

text \<open>The entries of \<^verbatim>\<open>event["results"]\<close> and \<^verbatim>\<open>event["seats_after"]\<close>, and the event.\<close>

record Result =
  result_seat_index :: nat
  player_name :: string
  money_delta :: int

text \<open>
  An entry of \<^verbatim>\<open>seats_after\<close> has the keys \<^verbatim>\<open>money\<close> and \<^verbatim>\<open>rounds\<close> only when the
  seat is occupied: \<open>occupant\<close> is then the first name, the balance and the rounds left.
\<close>

record Seat_After =
  seat :: nat
  occupant :: "(string \<times> int \<times> int) option"

record Event =
  event_table_id :: int
  round_num :: int
  initial_bets :: "(nat \<times> int) list"
  results :: "Result list"
  seats_after :: "Seat_After list"
  profit_delta :: int
  hands :: "(nat \<times> card list) list"
  dealer_hand :: "card list"

text \<open>\<^verbatim>\<open>total = 0; for card in hand: total += card[2]\<close>\<close>

definition hand_total :: "card list \<Rightarrow> int" where
  "hand_total hand = foldl (\<lambda>total c. total + card_value c) 0 hand"

text \<open>
  The bets. \<open>ri k\<close> is what the \<open>k\<close>-th call of \<^verbatim>\<open>random.randint(10, 100)\<close> returns.
  \<^verbatim>\<open>initial_bets\<close> and \<^verbatim>\<open>player_hands\<close> are dictionaries keyed by the seat index;
  a Python dictionary keeps its keys in the order of their first insertion, which is
  what \<^const>\<open>AList.update\<close> does on an association list.
\<close>

fun gen_bets :: "(nat \<Rightarrow> int) \<Rightarrow> nat \<Rightarrow> Seat list \<Rightarrow> (nat \<times> int) list \<Rightarrow> (nat \<times> int) list" where
  "gen_bets ri k [] ib = ib"
| "gen_bets ri k (s # ss) ib =
     (case player s of
        None \<Rightarrow> gen_bets ri k ss ib
      | Some p \<Rightarrow> gen_bets ri (Suc k) ss (AList.update (seat_index s) (ri k) ib))"

definition in_bet_range :: "(nat \<Rightarrow> int) \<Rightarrow> bool" where
  "in_bet_range ri = (\<forall>k. 10 \<le> ri k \<and> ri k \<le> 100)"

text \<open>Two cards to each occupied seat, the first one drawn first in the hand.\<close>

fun deal_players ::
  "Seat list \<Rightarrow> Deck \<Rightarrow> (nat \<times> card list) list \<Rightarrow> error + ((nat \<times> card list) list \<times> Deck)" where
  "deal_players [] d ph = Inr (ph, d)"
| "deal_players (s # ss) d ph =
     (case player s of
        None \<Rightarrow> deal_players ss d ph
      | Some p \<Rightarrow>
          (case draw_card d of
             Inl e \<Rightarrow> Inl e
           | Inr (c1, d1) \<Rightarrow>
               (case draw_card d1 of
                  Inl e \<Rightarrow> Inl e
                | Inr (c2, d2) \<Rightarrow>
                    deal_players ss d2 (AList.update (seat_index s) [c1, c2] ph))))"

definition deal_dealer :: "Deck \<Rightarrow> error + (card list \<times> Deck)" where
  "deal_dealer d =
     (case draw_card d of
        Inl e \<Rightarrow> Inl e
      | Inr (c1, d1) \<Rightarrow>
          (case draw_card d1 of
             Inl e \<Rightarrow> Inl e
           | Inr (c2, d2) \<Rightarrow> Inr ([c1, c2], d2)))"

text \<open>
  The inner \<^verbatim>\<open>while total < 18\<close> loop of a player, with its \<^verbatim>\<open>break\<close> on a total
  above 21. Every iteration pops a card, so the loop ends at the latest when the shoe
  is empty, with the exception of \<^const>\<open>draw_card\<close>.
\<close>

function player_hit :: "card list \<Rightarrow> Deck \<Rightarrow> error + (card list \<times> Deck)" where
  "player_hit hand d =
     (if hand_total hand < 18
      then (case draw_card d of
              Inl e \<Rightarrow> Inl e
            | Inr (new_card, d') \<Rightarrow>
                (if hand_total (hand @ [new_card]) > 21 then Inr (hand @ [new_card], d')
                 else player_hit (hand @ [new_card]) d'))
      else Inr (hand, d))"
  by pat_completeness auto
termination
  by (relation "measure (\<lambda>(hand, d). length d)") (auto simp: draw_card_def split: if_splits)

declare player_hit.simps [simp del]

text \<open>
  The loop over \<^verbatim>\<open>player_hands.items()\<close>; \<open>n\<close> is \<^verbatim>\<open>casino.total_hands_played\<close>.
\<close>

fun player_actions ::
  "(nat \<times> card list) list \<Rightarrow> Deck \<Rightarrow> int \<Rightarrow> error + ((nat \<times> card list) list \<times> Deck \<times> int)" where
  "player_actions [] d n = Inr ([], d, n)"
| "player_actions ((si, hand) # rest) d n =
     (case player_hit hand d of
        Inl e \<Rightarrow> Inl e
      | Inr (hand', d') \<Rightarrow>
          (case player_actions rest d' (n + 1) of
             Inl e \<Rightarrow> Inl e
           | Inr (rest', d'', n') \<Rightarrow> Inr ((si, hand') # rest', d'', n')))"

text \<open>The dealer's \<^verbatim>\<open>while dealer_total < 18\<close> loop.\<close>

function dealer_hit :: "card list \<Rightarrow> Deck \<Rightarrow> error + (card list \<times> Deck)" where
  "dealer_hit hand d =
     (if hand_total hand < 18
      then (case draw_card d of
              Inl e \<Rightarrow> Inl e
            | Inr (c, d') \<Rightarrow> dealer_hit (hand @ [c]) d')
      else Inr (hand, d))"
  by pat_completeness auto
termination
  by (relation "measure (\<lambda>(hand, d). length d)") (auto simp: draw_card_def split: if_splits)

declare dealer_hit.simps [simp del]

text \<open>
  \<^verbatim>\<open>player.history.append(outcome)\<close>, then
  \<^verbatim>\<open>if len(player.history) > 5: player.history = player.history[-5:]\<close>.
\<close>

definition record_outcome :: "string \<times> int \<Rightarrow> Player \<Rightarrow> Player" where
  "record_outcome outcome pl =
     (let hs = history pl @ [outcome]
      in pl\<lparr>history := (if length hs > 5 then drop (length hs - 5) hs else hs)\<rparr>)"

text \<open>
  The body of the settlement loop for one hand, once the seat's player \<open>p\<close> and bet are
  looked up. The state is the store, \<^verbatim>\<open>casino.casino_profit\<close> and
  \<^verbatim>\<open>event["results"]\<close>. The five branches are those of the source, in its order.
\<close>

definition settle_hand ::
  "int \<Rightarrow> nat \<Rightarrow> ref \<Rightarrow> int \<Rightarrow> int \<Rightarrow> heap \<times> int \<times> Result list \<Rightarrow> heap \<times> int \<times> Result list" where
  "settle_hand dealer_total si p bet player_total st =
     (case st of (h, profit, res) \<Rightarrow>
        if player_total > 21 then
          (h(p := record_outcome (''loss'', bet) ((h p)\<lparr>money_left := money_left (h p) - bet\<rparr>)),
           profit + bet,
           res @ [\<lparr>result_seat_index = si, player_name = first_name (h p), money_delta = bet\<rparr>])
        else if dealer_total > 21 then
          (h(p := record_outcome (''win'', bet) ((h p)\<lparr>money_left := money_left (h p) + bet\<rparr>)),
           profit - bet,
           res @ [\<lparr>result_seat_index = si, player_name = first_name (h p), money_delta = - bet\<rparr>])
        else if player_total > dealer_total then
          (h(p := record_outcome (''win'', bet) ((h p)\<lparr>money_left := money_left (h p) + bet\<rparr>)),
           profit - bet,
           res @ [\<lparr>result_seat_index = si, player_name = first_name (h p), money_delta = - bet\<rparr>])
        else if player_total < dealer_total then
          (h(p := record_outcome (''loss'', bet) ((h p)\<lparr>money_left := money_left (h p) - bet\<rparr>)),
           profit + bet,
           res @ [\<lparr>result_seat_index = si, player_name = first_name (h p), money_delta = bet\<rparr>])
        else
          (h(p := record_outcome (''push'', 0) (h p)),
           profit,
           res @ [\<lparr>result_seat_index = si, player_name = first_name (h p), money_delta = 0\<rparr>]))"

text \<open>
  The settlement loop over \<^verbatim>\<open>player_hands.items()\<close>:
  \<^verbatim>\<open>table.seats_list[seat_index]\<close> raises \<^verbatim>\<open>IndexError\<close> out of range,
  \<^verbatim>\<open>event["initial_bets"][seat_index]\<close> raises \<^verbatim>\<open>KeyError\<close> for a missing key, and
  \<^verbatim>\<open>player.money_left\<close> raises \<^verbatim>\<open>AttributeError\<close> when the seat is empty.
\<close>

fun settle ::
  "Seat list \<Rightarrow> (nat \<times> int) list \<Rightarrow> int \<Rightarrow> (nat \<times> card list) list \<Rightarrow>
   heap \<times> int \<times> Result list \<Rightarrow> error + (heap \<times> int \<times> Result list)" where
  "settle seats ib dealer_total [] st = Inr st"
| "settle seats ib dealer_total ((si, hand) # rest) st =
     (if si \<ge> length seats then Inl IndexError
      else (case map_of ib si of
              None \<Rightarrow> Inl KeyError
            | Some bet \<Rightarrow>
                (case player (seats ! si) of
                   None \<Rightarrow> Inl AttributeError
                 | Some p \<Rightarrow>
                     settle seats ib dealer_total rest
                       (settle_hand dealer_total si p bet (hand_total hand) st))))"

text \<open>\<^verbatim>\<open>seat.player.rounds_left -= 1\<close> for every occupied seat.\<close>

fun decrement_rounds :: "Seat list \<Rightarrow> heap \<Rightarrow> heap" where
  "decrement_rounds [] h = h"
| "decrement_rounds (s # ss) h =
     (case player s of
        None \<Rightarrow> decrement_rounds ss h
      | Some p \<Rightarrow> decrement_rounds ss (h(p := (h p)\<lparr>rounds_left := rounds_left (h p) - 1\<rparr>)))"

definition seat_after :: "heap \<Rightarrow> Seat \<Rightarrow> Seat_After" where
  "seat_after h s =
     (case player s of
        Some p \<Rightarrow> \<lparr>seat = seat_index s,
                   occupant = Some (first_name (h p), money_left (h p), rounds_left (h p))\<rparr>
      | None \<Rightarrow> \<lparr>seat = seat_index s, occupant = None\<rparr>)"

text \<open>
  \<^verbatim>\<open>play_round(casino, table, player_pool)\<close>. The state is the store of the player
  objects, the casino, the table and the waiting pool; an exception loses it. The shoe
  is local to the call. \<open>sh\<close> and \<open>ri\<close> are the random source.
\<close>

definition play_round ::
  "(nat \<Rightarrow> card list \<Rightarrow> card list) \<Rightarrow> (nat \<Rightarrow> int) \<Rightarrow> heap \<Rightarrow> Casino \<Rightarrow> Table \<Rightarrow> ref list \<Rightarrow>
   error + (heap \<times> Casino \<times> Table \<times> ref list \<times> Event)" where
  "play_round sh ri h casino t player_pool =
     (let starting_profit = casino_profit casino;
          deck = shuffle_deck sh (Deck_init 20);
          bets = gen_bets ri 0 (seats_list t) []
      in case deal_players (seats_list t) deck [] of
           Inl e \<Rightarrow> Inl e
         | Inr (player_hands, deck1) \<Rightarrow>
       (case deal_dealer deck1 of
           Inl e \<Rightarrow> Inl e
         | Inr (dealer_hand0, deck2) \<Rightarrow>
       (case player_actions player_hands deck2 (total_hands_played casino) of
           Inl e \<Rightarrow> Inl e
         | Inr (player_hands', deck3, played) \<Rightarrow>
       (case dealer_hit dealer_hand0 deck3 of
           Inl e \<Rightarrow> Inl e
         | Inr (dealer_hand', deck4) \<Rightarrow>
       (case settle (seats_list t) bets (hand_total dealer_hand') player_hands'
               (h, casino_profit casino, []) of
           Inl e \<Rightarrow> Inl e
         | Inr (h1, profit1, res) \<Rightarrow>
             (let h2 = decrement_rounds (seats_list t) h1;
                  casino1 = casino\<lparr>casino_profit := profit1, total_hands_played := played\<rparr>;
                  (t1, casino2) = remove_finished_players h2 t casino1;
                  (t2, pool') = fill_empty_seats t1 player_pool;
                  t3 = t2\<lparr>current_round_number := current_round_number t2 + 1\<rparr>;
                  event = \<lparr>event_table_id = table_id t,
                           round_num = current_round_number t,
                           initial_bets = bets,
                           results = res,
                           seats_after = map (seat_after h2) (seats_list t3),
                           profit_delta = casino_profit casino2 - starting_profit,
                           hands = player_hands',
                           dealer_hand = dealer_hand'\<rparr>
              in Inr (h2, casino2, t3, pool', event)))))))"

section \<open>simulation.py\<close>

text \<open>
  \<^verbatim>\<open>list.remove(x)\<close> deletes the first element that is \<open>x\<close> itself or equal to it. The
  elements are player objects of a dataclass, whose generated equality compares the
  fields; when no element matches, \<^verbatim>\<open>ValueError\<close> is raised.
\<close>

fun list_remove :: "heap \<Rightarrow> ref \<Rightarrow> ref list \<Rightarrow> error + ref list" where
  "list_remove h x [] = Inl ValueError"
| "list_remove h x (y # ys) =
     (if y = x \<or> h y = h x then Inr ys
      else (case list_remove h x ys of Inl e \<Rightarrow> Inl e | Inr ys' \<Rightarrow> Inr (y # ys')))"

text \<open>
  The first loop of the revival block. \<open>rm k\<close> and \<open>rr k\<close> are what the \<open>k\<close>-th calls of
  \<^verbatim>\<open>random.randint(500, 1000)\<close> and \<^verbatim>\<open>random.randint(3, 10)\<close> return.
\<close>

fun revive_loop ::
  "(nat \<Rightarrow> int) \<Rightarrow> (nat \<Rightarrow> int) \<Rightarrow> nat \<Rightarrow> ref list \<Rightarrow> heap \<Rightarrow> ref list \<Rightarrow> heap \<times> ref list" where
  "revive_loop rm rr k [] h revived = (h, revived)"
| "revive_loop rm rr k (p # ps) h revived =
     revive_loop rm rr (Suc k) ps
       (h(p := (h p)\<lparr>money_left := money_left (h p) + rm k,
                     rounds_left := rounds_left (h p) + rr k\<rparr>))
       (revived @ [p])"

text \<open>The second loop: out of \<^verbatim>\<open>casino.finished_players\<close>, onto the end of the pool.\<close>

fun move_back_loop ::
  "heap \<Rightarrow> ref list \<Rightarrow> ref list \<Rightarrow> ref list \<Rightarrow> error + (ref list \<times> ref list)" where
  "move_back_loop h [] fin pool = Inr (fin, pool)"
| "move_back_loop h (p # ps) fin pool =
     (case list_remove h p fin of
        Inl e \<Rightarrow> Inl e
      | Inr fin' \<Rightarrow> move_back_loop h ps fin' (pool @ [p]))"

text \<open>
  The revival block of the loop body of \<^verbatim>\<open>run_simulation\<close>, with its guard
  \<^verbatim>\<open>sim_time % 1800 == 0\<close>; \<open>sim_time\<close> is the clock after the tick's \<^verbatim>\<open>sim_time += 10\<close>.
\<close>

definition revive_finished ::
  "(nat \<Rightarrow> int) \<Rightarrow> (nat \<Rightarrow> int) \<Rightarrow> int \<Rightarrow> heap \<Rightarrow> Casino \<Rightarrow> ref list \<Rightarrow>
   error + (heap \<times> Casino \<times> ref list)" where
  "revive_finished rm rr sim_time h casino player_pool =
     (if sim_time mod 1800 = 0 then
        (let (h', revived_players) = revive_loop rm rr 0 (finished_players casino) h []
         in case move_back_loop h' revived_players (finished_players casino) player_pool of
              Inl e \<Rightarrow> Inl e
            | Inr (fin', pool') \<Rightarrow> Inr (h', casino\<lparr>finished_players := fin'\<rparr>, pool'))
      else Inr (h, casino, player_pool))"

section \<open>Notions used in the statements\<close>

text \<open>
  The indices of the occupied seats and the players sitting there, in seat order. The
  seats of a table built by \<^const>\<open>Table_init\<close> are indexed by their position; no
  operation changes a seat index.
\<close>

definition occupied_indices :: "Seat list \<Rightarrow> nat list" where
  "occupied_indices ss = map seat_index (filter (\<lambda>s. player s \<noteq> None) ss)"

definition seated_players :: "Seat list \<Rightarrow> ref list" where
  "seated_players ss = map (\<lambda>s. the (player s)) (filter (\<lambda>s. player s \<noteq> None) ss)"

definition hits_ok :: "card list \<Rightarrow> card list \<Rightarrow> bool" where
  "hits_ok hnd extra =
     ((\<forall>k < length extra. hand_total (hnd @ take k extra) < 18) \<and> 18 \<le> hand_total (hnd @ extra))"

definition house_delta :: "int \<Rightarrow> int \<Rightarrow> int \<Rightarrow> int" where
  "house_delta dealer_total bet player_total =
     (if player_total > 21 then bet
      else if dealer_total > 21 then - bet
      else if player_total > dealer_total then - bet
      else if player_total < dealer_total then bet
      else 0)"

definition outcome_of :: "int \<Rightarrow> int \<Rightarrow> int \<Rightarrow> string \<times> int" where
  "outcome_of dealer_total bet player_total =
     (if player_total > 21 then (''loss'', bet)
      else if dealer_total > 21 then (''win'', bet)
      else if player_total > dealer_total then (''win'', bet)
      else if player_total < dealer_total then (''loss'', bet)
      else (''push'', 0))"

definition evicted :: "heap \<Rightarrow> Seat \<Rightarrow> bool" where
  "evicted h s =
     (case player s of
        None \<Rightarrow> False
      | Some p \<Rightarrow> money_left (h p) < 100 \<or> rounds_left (h p) \<le> 0)"

definition vacant :: "Seat \<Rightarrow> bool" where
  "vacant s = (player s = None)"

definition seats_indexed :: "Seat list \<Rightarrow> bool" where
  "seats_indexed ss = (map seat_index ss = [0..<length ss])"

text \<open>The player and the bet the settlement loop looks up for a seat index.\<close>

definition player_at :: "Seat list \<Rightarrow> nat \<Rightarrow> ref" where
  "player_at seats si = the (player (seats ! si))"

definition bet_at :: "(nat \<times> int) list \<Rightarrow> nat \<Rightarrow> int" where
  "bet_at ib si = the (map_of ib si)"

definition settled :: "int \<Rightarrow> int \<Rightarrow> int \<Rightarrow> Player \<Rightarrow> Player" where
  "settled dt bet pt pl =
     record_outcome (outcome_of dt bet pt) (pl\<lparr>money_left := money_left pl - house_delta dt bet pt\<rparr>)"

section \<open>Concrete rounds\<close>

text \<open>A shoe whose top cards are known: \<open>cs\<close> are the next cards drawn, first one first.\<close>

definition on_top :: "card list \<Rightarrow> card list \<Rightarrow> Deck" where
  "on_top d cs = d @ rev cs"

text \<open>Two shuffles: one leaves the order as built, one cuts the first nine cards to the end.\<close>

definition no_shuffle :: "nat \<Rightarrow> card list \<Rightarrow> card list" where
  "no_shuffle k d = d"

definition cut_shuffle :: "nat \<Rightarrow> card list \<Rightarrow> card list" where
  "cut_shuffle k d = (if k = 0 then drop 9 d @ take 9 d else d)"

text \<open>A store, a casino and two tables for concrete rounds.\<close>

definition h0 :: heap where
  "h0 = (\<lambda>r. \<lparr>first_name = ''Ann'', last_name = ''Lee'', email = ''a@b.c'', player_id = int r,
     player_type = ''casual'', money_left = 150, rounds_left = 3, history = []\<rparr>)"

definition c0 :: Casino where
  "c0 = \<lparr>casino_name = ''Royal'', tables = [], finished_players = [], casino_profit = 0,
     total_hands_played = 0\<rparr>"

definition t0 :: Table where
  "t0 = \<lparr>table_id = 1, num_seats = 4,
     seats_list = [\<lparr>seat_index = 0, player = Some 1\<rparr>, \<lparr>seat_index = 1, player = None\<rparr>,
                   \<lparr>seat_index = 2, player = Some 2\<rparr>, \<lparr>seat_index = 3, player = Some 4\<rparr>],
     current_round_number = 1\<rparr>"

definition t1 :: Table where
  "t1 = \<lparr>table_id = 2, num_seats = 1, seats_list = [\<lparr>seat_index = 0, player = Some 1\<rparr>],
     current_round_number = 1\<rparr>"

definition bets0 :: "nat \<Rightarrow> int" where
  "bets0 k = 60 + 10 * int k"

text \<open>What is seen of the result of a round: the listed player objects instead of the store.\<close>

definition round_view ::
  "error + (heap \<times> Casino \<times> Table \<times> ref list \<times> Event) \<Rightarrow> ref list \<Rightarrow>
   error + (Player list \<times> Casino \<times> Table \<times> ref list \<times> Event)" where
  "round_view r ps =
     (case r of Inl e \<Rightarrow> Inl e | Inr (h, c, t, pool, ev) \<Rightarrow> Inr (map h ps, c, t, pool, ev))"

definition players_A :: "Player list" where
  "players_A =
     [\<lparr>first_name = ''Ann'', last_name = ''Lee'', email = ''a@b.c'', player_id = 1,
       player_type = ''casual'', money_left = 90, rounds_left = 2, history = [(''loss'', 60)]\<rparr>,
      \<lparr>first_name = ''Ann'', last_name = ''Lee'', email = ''a@b.c'', player_id = 2,
       player_type = ''casual'', money_left = 80, rounds_left = 2, history = [(''loss'', 70)]\<rparr>,
      \<lparr>first_name = ''Ann'', last_name = ''Lee'', email = ''a@b.c'', player_id = 3,
       player_type = ''casual'', money_left = 150, rounds_left = 3, history = []\<rparr>,
      \<lparr>first_name = ''Ann'', last_name = ''Lee'', email = ''a@b.c'', player_id = 4,
       player_type = ''casual'', money_left = 230, rounds_left = 2, history = [(''win'', 80)]\<rparr>]"

definition casino_A :: Casino where
  "casino_A = \<lparr>casino_name = ''Royal'', tables = [], finished_players = [1, 2],
     casino_profit = 50, total_hands_played = 3\<rparr>"

definition table_A :: Table where
  "table_A = \<lparr>table_id = 1, num_seats = 4,
     seats_list = [\<lparr>seat_index = 0, player = Some 3\<rparr>, \<lparr>seat_index = 1, player = None\<rparr>,
                   \<lparr>seat_index = 2, player = None\<rparr>, \<lparr>seat_index = 3, player = Some 4\<rparr>],
     current_round_number = 2\<rparr>"

definition event_A :: Event where
  "event_A = \<lparr>event_table_id = 1, round_num = 1, initial_bets = [(0, 60), (2, 70), (3, 80)],
     results = [\<lparr>result_seat_index = 0, player_name = ''Ann'', money_delta = 60\<rparr>,
                \<lparr>result_seat_index = 2, player_name = ''Ann'', money_delta = 70\<rparr>,
                \<lparr>result_seat_index = 3, player_name = ''Ann'', money_delta = - 80\<rparr>],
     seats_after = [\<lparr>seat = 0, occupant = Some (''Ann'', 150, 3)\<rparr>,
                    \<lparr>seat = 1, occupant = None\<rparr>,
                    \<lparr>seat = 2, occupant = None\<rparr>,
                    \<lparr>seat = 3, occupant = Some (''Ann'', 230, 2)\<rparr>],
     profit_delta = 50,
     hands = [(0, [(''9'', ''Heart'', 9), (''8'', ''Heart'', 8), (''A'', ''Heart'', 11)]),
              (2, [(''7'', ''Heart'', 7), (''6'', ''Heart'', 6), (''K'', ''Diamond'', 10)]),
              (3, [(''5'', ''Heart'', 5), (''4'', ''Heart'', 4), (''Q'', ''Diamond'', 10)])],
     dealer_hand = [(''3'', ''Heart'', 3), (''2'', ''Heart'', 2), (''J'', ''Diamond'', 10),
                    (''10'', ''Diamond'', 10)]\<rparr>"

definition players_B :: "Player list" where
  "players_B =
     [\<lparr>first_name = ''Ann'', last_name = ''Lee'', email = ''a@b.c'', player_id = 1,
       player_type = ''casual'', money_left = 150, rounds_left = 2, history = [(''push'', 0)]\<rparr>]"

definition casino_B :: Casino where
  "casino_B = \<lparr>casino_name = ''Royal'', tables = [], finished_players = [], casino_profit = 0,
     total_hands_played = 1\<rparr>"

definition table_B :: Table where
  "table_B = \<lparr>table_id = 2, num_seats = 1, seats_list = [\<lparr>seat_index = 0, player = Some 1\<rparr>],
     current_round_number = 2\<rparr>"

definition event_B :: Event where
  "event_B = \<lparr>event_table_id = 2, round_num = 1, initial_bets = [(0, 60)],
     results = [\<lparr>result_seat_index = 0, player_name = ''Ann'', money_delta = 0\<rparr>],
     seats_after = [\<lparr>seat = 0, occupant = Some (''Ann'', 150, 2)\<rparr>],
     profit_delta = 0,
     hands = [(0, [(''K'', ''Diamond'', 10), (''Q'', ''Diamond'', 10)])],
     dealer_hand = [(''J'', ''Diamond'', 10), (''10'', ''Diamond'', 10)]\<rparr>"

section \<open>The shoe\<close>

lemma length_one_deck: "length one_deck = 52"
  by (simp add: one_deck_def CARD_LIST_def SUITS_def)

lemma length_Deck_init: "length (Deck_init n) = 52 * n"
  by (induction n) (simp_all add: Deck_init_def length_one_deck)

lemma set_one_deck:
  "set one_deck = {(r, s, v). (r, v) \<in> set CARD_LIST \<and> s \<in> set SUITS}"
  by (auto simp: one_deck_def)

lemma distinct_one_deck: "distinct one_deck"
  by (simp add: one_deck_def CARD_LIST_def SUITS_def)

lemma count_list_distinct: "distinct xs \<Longrightarrow> x \<in> set xs \<Longrightarrow> count_list xs x = 1"
  by (induction xs) (auto simp: count_list_0_iff)

lemma count_list_one_deck:
  "count_list one_deck (r, s, v) = (if (r, v) \<in> set CARD_LIST \<and> s \<in> set SUITS then 1 else 0)"
proof (cases "(r, s, v) \<in> set one_deck")
  case True
  then have "count_list one_deck (r, s, v) = 1"
    using distinct_one_deck by (rule count_list_distinct [rotated])
  with True show ?thesis by (simp add: set_one_deck)
next
  case False
  then have "count_list one_deck (r, s, v) = 0"
    by (simp add: count_list_0_iff)
  with False show ?thesis by (simp add: set_one_deck)
qed

lemma count_list_Deck_init:
  "count_list (Deck_init n) c = n * count_list one_deck c"
  by (induction n) (simp_all add: Deck_init_def)

lemma set_Deck_init: "set (Deck_init n) \<subseteq> set one_deck"
  by (auto simp: Deck_init_def)

lemma card_value_one_deck: "c \<in> set one_deck \<Longrightarrow> 2 \<le> card_value c \<and> card_value c \<le> 11"
  by (auto simp: set_one_deck CARD_LIST_def card_value_def)

lemma draw_card_snoc: "draw_card (d @ [c]) = Inr (c, d)"
  by (simp add: draw_card_def)

lemma draw_n_all: "draw_n (length d) d = Inr (rev d, [])"
  by (induction d rule: rev_induct) (simp_all add: draw_card_snoc)

lemma draw_n_prefix:
  "n \<le> length d \<Longrightarrow> draw_n n d = Inr (rev (drop (length d - n) d), take (length d - n) d)"
proof (induction n arbitrary: d)
  case 0
  then show ?case by simp
next
  case (Suc n)
  then obtain d' c where d: "d = d' @ [c]"
    by (cases d rule: rev_cases) auto
  with Suc.prems have "n \<le> length d'" by simp
  from Suc.IH [OF this] show ?case
    by (simp add: d draw_card_snoc Suc_diff_le)
qed

lemma draw_n_too_many: "draw_n (Suc (length d)) d = Inl IndexError"
proof (induction d rule: rev_induct)
  case Nil
  show ?case by (simp add: draw_card_def)
next
  case (snoc c d)
  then show ?case by (simp add: draw_card_snoc)
qed

text \<open>
  C7. A shoe built with \<open>n\<close> decks holds exactly \<open>52 * n\<close> cards: a card occurs \<open>n\<close> times
  if its rank and value are an entry of \<^verbatim>\<open>CARD_LIST\<close> and its suit one of the four
  \<^verbatim>\<open>SUITS\<close>, and not at all otherwise; there are 13 ranks and 4 suits, the face cards
  are valued 10 and the ace 11. With one deck, every one of the first 52 draws removes
  and returns one card (\<open>k\<close> draws return the last \<open>k\<close> cards of the list, last first,
  and leave the other \<open>52 - k\<close>), the 52nd leaves the shoe empty, and the 53rd draw raises
  the exception of \<^verbatim>\<open>list.pop()\<close> on an empty list (\<^verbatim>\<open>IndexError\<close>, the failure the
  specification calls ShoeExhausted) instead of returning a card.
\<close>

theorem shoe_composition_and_exhaustion:
  "length (Deck_init n) = 52 * n \<and>
   count_list (Deck_init n) (r, s, v) =
     (if (r, v) \<in> set CARD_LIST \<and> s \<in> set SUITS then n else 0) \<and>
   length CARD_LIST = 13 \<and> distinct (map fst CARD_LIST) \<and> length SUITS = 4 \<and> distinct SUITS \<and>
   map_of CARD_LIST ''J'' = Some 10 \<and> map_of CARD_LIST ''Q'' = Some 10 \<and>
   map_of CARD_LIST ''K'' = Some 10 \<and> map_of CARD_LIST ''A'' = Some 11 \<and>
   (k \<le> 52 \<longrightarrow> draw_n k (Deck_init 1) =
      Inr (rev (drop (52 - k) (Deck_init 1)), take (52 - k) (Deck_init 1))) \<and>
   draw_n 52 (Deck_init 1) = Inr (rev (Deck_init 1), []) \<and>
   draw_n 53 (Deck_init 1) = Inl IndexError \<and>
   draw_card [] = Inl IndexError"
proof -
  have a: "length (Deck_init n) = 52 * n" by (rule length_Deck_init)
  have b: "count_list (Deck_init n) (r, s, v) =
     (if (r, v) \<in> set CARD_LIST \<and> s \<in> set SUITS then n else 0)"
    by (simp add: count_list_Deck_init count_list_one_deck)
  have c: "length CARD_LIST = 13 \<and> distinct (map fst CARD_LIST) \<and> length SUITS = 4 \<and> distinct SUITS"
    by (simp add: CARD_LIST_def SUITS_def)
  have d: "map_of CARD_LIST ''J'' = Some 10 \<and> map_of CARD_LIST ''Q'' = Some 10 \<and>
   map_of CARD_LIST ''K'' = Some 10 \<and> map_of CARD_LIST ''A'' = Some 11"
    by (simp add: CARD_LIST_def)
  have len: "length (Deck_init 1) = 52" by (simp add: length_Deck_init)
  have e: "k \<le> 52 \<longrightarrow> draw_n k (Deck_init 1) =
     Inr (rev (drop (52 - k) (Deck_init 1)), take (52 - k) (Deck_init 1))"
    using draw_n_prefix [of k "Deck_init 1", unfolded len] by simp
  have f: "draw_n 52 (Deck_init 1) = Inr (rev (Deck_init 1), [])"
    using draw_n_all [of "Deck_init 1", unfolded len] by simp
  have g: "draw_n 53 (Deck_init 1) = Inl IndexError"
    using draw_n_too_many [of "Deck_init 1", unfolded len] by (simp add: eval_nat_numeral)
  have h: "draw_card [] = Inl IndexError" by (simp add: draw_card_def)
  from a b c d e f g h show ?thesis by blast
qed

theorem shoe_composition_and_exhaustion_witness:
  "length (Deck_init 20) = 1040 \<and>
   count_list (Deck_init 20) (''K'', ''Spade'', 10) = 20 \<and>
   count_list (Deck_init 20) (''K'', ''Spade'', 11) = 0 \<and>
   (2::nat) \<le> 52 \<and>
   draw_n 2 (Deck_init 1) =
     Inr ([(''K'', ''Diamond'', 10), (''Q'', ''Diamond'', 10)], take 50 (Deck_init 1)) \<and>
   draw_n 53 (Deck_init 1) = Inl IndexError"
proof -
  have d: "drop 50 (Deck_init (Suc 0)) = [(''Q'', ''Diamond'', 10), (''K'', ''Diamond'', 10)]"
    by (simp add: Deck_init_def one_deck_def CARD_LIST_def SUITS_def)
  show ?thesis
    using shoe_composition_and_exhaustion [of 20 "''K''" "''Spade''" 10 2]
      shoe_composition_and_exhaustion [of 20 "''K''" "''Spade''" 11 2]
    by (simp add: d CARD_LIST_def SUITS_def)
qed

section \<open>The loops of a round\<close>

lemma foldl_add_sum: "foldl (\<lambda>total c. total + f c) a xs = a + sum_list (map f xs)"
  for a :: int
  by (induction xs arbitrary: a) simp_all

lemma hand_total_sum: "hand_total hand = sum_list (map card_value hand)"
  by (simp add: hand_total_def foldl_add_sum)

lemma hand_total_append: "hand_total (xs @ ys) = hand_total xs + hand_total ys"
  by (simp add: hand_total_sum)

lemma draw_card_Inr: "draw_card d = Inr (c, d') \<Longrightarrow> d = d' @ [c]"
  by (auto simp: draw_card_def split: if_splits)

lemma draw_card_Inl: "draw_card d = Inl e \<Longrightarrow> d = [] \<and> e = IndexError"
  by (auto simp: draw_card_def split: if_splits)

lemma player_hit_dealer_hit: "player_hit hand d = dealer_hit hand d"
proof (induction hand d rule: dealer_hit.induct)
  case (1 hand d)
  show ?case
  proof (cases "hand_total hand < 18")
    case False
    then show ?thesis by (simp add: player_hit.simps [of hand d] dealer_hit.simps [of hand d])
  next
    case lt: True
    show ?thesis
    proof (cases "draw_card d")
      case (Inl e)
      with lt show ?thesis by (simp add: player_hit.simps [of hand d] dealer_hit.simps [of hand d])
    next
      case (Inr cd)
      obtain c d' where cd: "cd = (c, d')" by (cases cd)
      from "1.IH" [OF lt Inr cd [symmetric]]
      have ih: "player_hit (hand @ [c]) d' = dealer_hit (hand @ [c]) d'" .
      show ?thesis
      proof (cases "21 < hand_total (hand @ [c])")
        case True
        then have "dealer_hit (hand @ [c]) d' = Inr (hand @ [c], d')"
          by (subst dealer_hit.simps) simp
        with lt Inr cd True show ?thesis
          by (subst player_hit.simps, subst dealer_hit.simps) simp
      next
        case False
        with lt Inr cd ih show ?thesis
          by (subst player_hit.simps, subst dealer_hit.simps) simp
      qed
    qed
  qed
qed

lemma dealer_hit_grows:
  "dealer_hit hand d = Inr (hand', d') \<Longrightarrow>
   \<exists>extra. hand' = hand @ extra \<and> d = d' @ rev extra \<and>
     (\<forall>k < length extra. hand_total (hand @ take k extra) < 18) \<and> 18 \<le> hand_total hand'"
proof (induction hand d rule: dealer_hit.induct)
  case (1 hand d)
  show ?case
  proof (cases "hand_total hand < 18")
    case False
    with "1.prems" have "hand' = hand" "d' = d" by (simp_all add: dealer_hit.simps [of hand d])
    with False show ?thesis by simp
  next
    case lt: True
    with "1.prems" obtain c d1 where dc: "draw_card d = Inr (c, d1)"
      and rec: "dealer_hit (hand @ [c]) d1 = Inr (hand', d')"
      by (subst (asm) dealer_hit.simps) (auto split: sum.splits)
    from "1.IH" [OF lt dc refl rec]
    obtain extra where e: "hand' = (hand @ [c]) @ extra" "d1 = d' @ rev extra"
      "\<forall>k < length extra. hand_total ((hand @ [c]) @ take k extra) < 18" "18 \<le> hand_total hand'"
      by blast
    have "\<forall>k < length (c # extra). hand_total (hand @ take k (c # extra)) < 18"
    proof (intro allI impI)
      fix k assume "k < length (c # extra)"
      then show "hand_total (hand @ take k (c # extra)) < 18"
        using e(3) lt by (cases k) auto
    qed
    moreover have "hand' = hand @ (c # extra)" using e(1) by simp
    moreover have "d = d' @ rev (c # extra)" using draw_card_Inr [OF dc] e(2) by simp
    ultimately show ?thesis using e(4) by blast
  qed
qed


lemma dealer_hit_succeeds:
  "\<forall>c \<in> set hand \<union> set d. 2 \<le> card_value c \<Longrightarrow> 9 \<le> length hand + length d \<Longrightarrow>
   \<exists>hand' d'. dealer_hit hand d = Inr (hand', d') \<and> length hand' \<le> max 9 (length hand)"
proof (induction hand d rule: dealer_hit.induct)
  case (1 hand d)
  show ?case
  proof (cases "hand_total hand < 18")
    case False
    then show ?thesis by (simp add: dealer_hit.simps [of hand d])
  next
    case lt: True
    have "2 * int (length hand) \<le> hand_total hand"
      using "1.prems"(1) unfolding hand_total_sum
      by (induction hand) auto
    with lt have len: "length hand \<le> 8" by simp
    with "1.prems"(2) have "d \<noteq> []" by auto
    then obtain d1 c where d: "d = d1 @ [c]" by (cases d rule: rev_cases) auto
    then have dc: "draw_card d = Inr (c, d1)" by (simp add: draw_card_snoc)
    have "\<exists>hand' d'. dealer_hit (hand @ [c]) d1 = Inr (hand', d') \<and>
        length hand' \<le> max 9 (length (hand @ [c]))"
      using "1.IH" [OF lt dc refl] "1.prems" d by auto
    then obtain hand' d' where r: "dealer_hit (hand @ [c]) d1 = Inr (hand', d')"
      "length hand' \<le> max 9 (length (hand @ [c]))" by blast
    from lt dc r(1) have "dealer_hit hand d = Inr (hand', d')"
      by (subst dealer_hit.simps) simp
    moreover from r(2) len have "length hand' \<le> max 9 (length hand)" by simp
    ultimately show ?thesis by blast
  qed
qed

lemma update_fresh: "k \<notin> fst ` set al \<Longrightarrow> AList.update k v al = al @ [(k, v)]"
  by (induction al) auto

lemma occupied_indices_Cons:
  "occupied_indices (s # ss) =
     (case player s of None \<Rightarrow> occupied_indices ss | Some p \<Rightarrow> seat_index s # occupied_indices ss)"
  by (simp add: occupied_indices_def split: option.splits)

lemma seated_players_Cons:
  "seated_players (s # ss) =
     (case player s of None \<Rightarrow> seated_players ss | Some p \<Rightarrow> p # seated_players ss)"
  by (simp add: seated_players_def split: option.splits)

lemma occupied_indices_Nil: "occupied_indices [] = []"
  by (simp add: occupied_indices_def)

lemma seated_players_Nil: "seated_players [] = []"
  by (simp add: seated_players_def)

lemma occupied_indices_subset: "set (occupied_indices ss) \<subseteq> set (map seat_index ss)"
  by (auto simp: occupied_indices_def)

lemma length_occupied_seated: "length (occupied_indices ss) = length (seated_players ss)"
  by (simp add: occupied_indices_def seated_players_def)

lemma gen_bets_spec:
  "distinct (map seat_index ss) \<Longrightarrow> fst ` set ib \<inter> set (map seat_index ss) = {} \<Longrightarrow>
   \<exists>bs. length bs = length (occupied_indices ss) \<and> set bs \<subseteq> range ri \<and>
        gen_bets ri k ss ib = ib @ zip (occupied_indices ss) bs"
proof (induction ss arbitrary: k ib)
  case Nil
  then show ?case by (simp add: occupied_indices_Nil)
next
  case (Cons s ss)
  show ?case
  proof (cases "player s")
    case None
    with Cons show ?thesis by (simp add: occupied_indices_Cons)
  next
    case (Some p)
    from Cons.prems have fresh: "seat_index s \<notin> fst ` set ib" by auto
    have disj: "fst ` set (ib @ [(seat_index s, ri k)]) \<inter> set (map seat_index ss) = {}"
      using Cons.prems by auto
    from Cons.prems(1) have dist: "distinct (map seat_index ss)" by simp
    from Cons.IH [OF dist disj, of "Suc k"]
    obtain bs where bs: "length bs = length (occupied_indices ss)" "set bs \<subseteq> range ri"
      "gen_bets ri (Suc k) ss (ib @ [(seat_index s, ri k)]) =
         (ib @ [(seat_index s, ri k)]) @ zip (occupied_indices ss) bs" by blast
    with Some fresh show ?thesis
      by (intro exI [of _ "ri k # bs"]) (simp add: occupied_indices_Cons update_fresh)
  qed
qed

lemma deal_players_spec:
  "distinct (map seat_index ss) \<Longrightarrow> fst ` set ph \<inter> set (map seat_index ss) = {} \<Longrightarrow>
   deal_players ss d ph = Inr (ph', d') \<Longrightarrow>
   \<exists>hs. length hs = length (occupied_indices ss) \<and> (\<forall>x \<in> set hs. length x = 2) \<and>
        ph' = ph @ zip (occupied_indices ss) hs \<and> d = d' @ rev (concat hs)"
proof (induction ss arbitrary: d ph)
  case Nil
  then show ?case by (simp add: occupied_indices_Nil)
next
  case (Cons s ss)
  show ?case
  proof (cases "player s")
    case None
    with Cons show ?thesis by (simp add: occupied_indices_Cons)
  next
    case (Some p)
    from Cons.prems have fresh: "seat_index s \<notin> fst ` set ph" by auto
    from Cons.prems(3) Some obtain c1 d1 c2 d2 where
      dc1: "draw_card d = Inr (c1, d1)" and dc2: "draw_card d1 = Inr (c2, d2)"
      and rec: "deal_players ss d2 (AList.update (seat_index s) [c1, c2] ph) = Inr (ph', d')"
      by (auto split: sum.splits)
    have upd: "AList.update (seat_index s) [c1, c2] ph = ph @ [(seat_index s, [c1, c2])]"
      using fresh by (rule update_fresh)
    have disj: "fst ` set (ph @ [(seat_index s, [c1, c2])]) \<inter> set (map seat_index ss) = {}"
      using Cons.prems by auto
    from Cons.prems(1) have dist: "distinct (map seat_index ss)" by simp
    from Cons.IH [OF dist disj rec [unfolded upd]]
    obtain hs where hs: "length hs = length (occupied_indices ss)" "\<forall>x \<in> set hs. length x = 2"
      "ph' = (ph @ [(seat_index s, [c1, c2])]) @ zip (occupied_indices ss) hs"
      "d2 = d' @ rev (concat hs)" by blast
    let ?hs = "[c1, c2] # hs"
    have "d = d' @ rev (concat ?hs)"
      using draw_card_Inr [OF dc1] draw_card_Inr [OF dc2] hs(4) by simp
    with hs Some show ?thesis
      by (intro exI [of _ ?hs]) (simp add: occupied_indices_Cons)
  qed
qed

lemma player_actions_spec:
  "player_actions ph d n = Inr (ph', d', n') \<Longrightarrow>
   n' = n + int (length ph) \<and>
   (\<exists>es. length es = length ph \<and> ph' = map (\<lambda>((i, hnd), e). (i, hnd @ e)) (zip ph es) \<and>
         d = d' @ rev (concat es) \<and> list_all2 (\<lambda>(i, hnd) e. hits_ok hnd e) ph es)"
proof (induction ph arbitrary: d n ph')
  case Nil
  then show ?case by simp
next
  case (Cons x ph)
  obtain si hnd where x: "x = (si, hnd)" by (cases x)
  from Cons.prems x obtain hnd' d1 rest' where
    hit: "player_hit hnd d = Inr (hnd', d1)"
    and rec: "player_actions ph d1 (n + 1) = Inr (rest', d', n')"
    and ph': "ph' = (si, hnd') # rest'"
    by (auto split: sum.splits)
  from dealer_hit_grows [OF hit [unfolded player_hit_dealer_hit]]
  obtain e where e: "hnd' = hnd @ e" "d = d1 @ rev e" "hits_ok hnd e"
    unfolding hits_ok_def by auto
  from Cons.IH [OF rec] obtain es where es: "n' = n + 1 + int (length ph)"
    "length es = length ph" "rest' = map (\<lambda>((i, hnd), e). (i, hnd @ e)) (zip ph es)"
    "d1 = d' @ rev (concat es)" "list_all2 (\<lambda>(i, hnd) e. hits_ok hnd e) ph es"
    by auto
  show ?case
  proof (intro conjI exI [of _ "e # es"])
    show "n' = n + int (length (x # ph))" using es(1) by simp
    show "length (e # es) = length (x # ph)" using es(2) by simp
    show "ph' = map (\<lambda>((i, hnd), e). (i, hnd @ e)) (zip (x # ph) (e # es))"
      using ph' e(1) es(3) x by simp
    show "d = d' @ rev (concat (e # es))" using e(2) es(4) by simp
    show "list_all2 (\<lambda>(i, hnd) e. hits_ok hnd e) (x # ph) (e # es)"
      using e(3) es(5) x by simp
  qed
qed

lemma settle_hand_eq:
  "settle_hand dt si p bet pt (h, profit, res) =
     (h(p := record_outcome (outcome_of dt bet pt)
               ((h p)\<lparr>money_left := money_left (h p) - house_delta dt bet pt\<rparr>)),
      profit + house_delta dt bet pt,
      res @ [\<lparr>result_seat_index = si, player_name = first_name (h p),
              money_delta = house_delta dt bet pt\<rparr>])"
  by (simp add: settle_hand_def house_delta_def outcome_of_def)

lemma first_name_record_outcome: "first_name (record_outcome oc pl) = first_name pl"
  by (simp add: record_outcome_def Let_def)

lemma money_left_record_outcome: "money_left (record_outcome oc pl) = money_left pl"
  by (simp add: record_outcome_def Let_def)

lemma rounds_left_record_outcome: "rounds_left (record_outcome oc pl) = rounds_left pl"
  by (simp add: record_outcome_def Let_def)

lemma history_record_outcome:
  "history (record_outcome oc pl) =
     (if length (history pl) \<ge> 5 then drop (length (history pl) - 4) (history pl) @ [oc]
      else history pl @ [oc])"
  by (simp add: record_outcome_def Let_def Suc_diff_le)


lemma settle_spec:
  assumes "\<forall>(si, hnd) \<in> set es. si < length seats \<and> map_of ib si \<noteq> None \<and> player (seats ! si) \<noteq> None"
    and "distinct (map (\<lambda>(si, hnd). player_at seats si) es)"
  shows "\<exists>h'. settle seats ib dt es (h, profit, res) =
        Inr (h', profit + (\<Sum>(si, hnd)\<leftarrow>es. house_delta dt (bet_at ib si) (hand_total hnd)),
             res @ map (\<lambda>(si, hnd). \<lparr>result_seat_index = si,
                    player_name = first_name (h (player_at seats si)),
                    money_delta = house_delta dt (bet_at ib si) (hand_total hnd)\<rparr>) es) \<and>
      (\<forall>q. q \<notin> (\<lambda>(si, hnd). player_at seats si) ` set es \<longrightarrow> h' q = h q) \<and>
      (\<forall>(si, hnd) \<in> set es. h' (player_at seats si) =
          settled dt (bet_at ib si) (hand_total hnd) (h (player_at seats si)))"
  using assms
proof (induction es arbitrary: h profit res)
  case Nil
  then show ?case by simp
next
  case (Cons x es)
  obtain si hnd where x: "x = (si, hnd)" by (cases x)
  let ?p = "player_at seats si" and ?b = "bet_at ib si"
  from Cons.prems(1) x obtain bet p where
    si: "si < length seats" and bet: "map_of ib si = Some bet" and p: "player (seats ! si) = Some p"
    by auto
  then have pb: "?p = p" "?b = bet" by (simp_all add: player_at_def bet_at_def)
  let ?h1 = "h(?p := settled dt ?b (hand_total hnd) (h ?p))"
  let ?d = "house_delta dt ?b (hand_total hnd)"
  let ?r = "\<lparr>result_seat_index = si, player_name = first_name (h ?p), money_delta = ?d\<rparr>"
  have step: "settle seats ib dt (x # es) (h, profit, res) =
      settle seats ib dt es (?h1, profit + ?d, res @ [?r])"
    using si bet p by (simp add: x settle_hand_eq pb settled_def)
  have pre1: "\<forall>(si, hnd) \<in> set es. si < length seats \<and> map_of ib si \<noteq> None \<and> player (seats ! si) \<noteq> None"
    using Cons.prems(1) by simp
  have pre2: "distinct (map (\<lambda>(si, hnd). player_at seats si) es)"
    using Cons.prems(2) by simp
  have notin: "?p \<notin> (\<lambda>(si, hnd). player_at seats si) ` set es"
    using Cons.prems(2) x by auto
  from Cons.IH [OF pre1 pre2, of ?h1 "profit + ?d" "res @ [?r]"]
  obtain h' where h': "settle seats ib dt es (?h1, profit + ?d, res @ [?r]) =
        Inr (h', profit + ?d + (\<Sum>(si, hnd)\<leftarrow>es. house_delta dt (bet_at ib si) (hand_total hnd)),
             (res @ [?r]) @ map (\<lambda>(si, hnd). \<lparr>result_seat_index = si,
                    player_name = first_name (?h1 (player_at seats si)),
                    money_delta = house_delta dt (bet_at ib si) (hand_total hnd)\<rparr>) es)"
      "\<forall>q. q \<notin> (\<lambda>(si, hnd). player_at seats si) ` set es \<longrightarrow> h' q = ?h1 q"
      "\<forall>(si, hnd) \<in> set es. h' (player_at seats si) =
          settled dt (bet_at ib si) (hand_total hnd) (?h1 (player_at seats si))"
    by blast
  have other: "?h1 (player_at seats sj) = h (player_at seats sj)" if "(sj, hj) \<in> set es" for sj hj
    using that notin by force
  have names: "map (\<lambda>(si, hnd). \<lparr>result_seat_index = si,
                    player_name = first_name (?h1 (player_at seats si)),
                    money_delta = house_delta dt (bet_at ib si) (hand_total hnd)\<rparr>) es =
      map (\<lambda>(si, hnd). \<lparr>result_seat_index = si,
                    player_name = first_name (h (player_at seats si)),
                    money_delta = house_delta dt (bet_at ib si) (hand_total hnd)\<rparr>) es"
    by (rule map_cong [OF refl]) (use other in auto)
  show ?case
  proof (intro exI [of _ h'] conjI)
    show "settle seats ib dt (x # es) (h, profit, res) =
      Inr (h', profit + (\<Sum>(si, hnd)\<leftarrow>x # es. house_delta dt (bet_at ib si) (hand_total hnd)),
         res @ map (\<lambda>(si, hnd). \<lparr>result_seat_index = si,
                    player_name = first_name (h (player_at seats si)),
                    money_delta = house_delta dt (bet_at ib si) (hand_total hnd)\<rparr>) (x # es))"
      unfolding step h'(1) names by (simp add: x)
    show "\<forall>q. q \<notin> (\<lambda>(si, hnd). player_at seats si) ` set (x # es) \<longrightarrow> h' q = h q"
      using h'(2) x by auto
    show "\<forall>(si, hnd) \<in> set (x # es). h' (player_at seats si) =
          settled dt (bet_at ib si) (hand_total hnd) (h (player_at seats si))"
    proof -
      have "h' ?p = settled dt ?b (hand_total hnd) (h ?p)"
        using h'(2) notin by simp
      moreover have "h' (player_at seats sj) =
          settled dt (bet_at ib sj) (hand_total hj) (h (player_at seats sj))"
        if "(sj, hj) \<in> set es" for sj hj
        using h'(3) that other [OF that] by force
      ultimately show ?thesis using x by auto
    qed
  qed
qed

lemma decrement_rounds_spec:
  "distinct (seated_players ss) \<Longrightarrow>
   decrement_rounds ss h =
     (\<lambda>q. if q \<in> set (seated_players ss) then (h q)\<lparr>rounds_left := rounds_left (h q) - 1\<rparr> else h q)"
proof (induction ss arbitrary: h)
  case Nil
  then show ?case by (simp add: seated_players_Nil)
next
  case (Cons s ss)
  show ?case
  proof (cases "player s")
    case None
    with Cons show ?thesis by (simp add: seated_players_Cons)
  next
    case (Some p)
    with Cons.prems have d: "distinct (seated_players ss)" and n: "p \<notin> set (seated_players ss)"
      by (simp_all add: seated_players_Cons)
    show ?thesis
      using Some n by (auto simp: Cons.IH [OF d] seated_players_Cons)
  qed
qed

lemma decrement_rounds_money: "money_left (decrement_rounds ss h q) = money_left (h q)"
  by (induction ss arbitrary: h) (auto split: option.splits)

lemma decrement_rounds_history: "history (decrement_rounds ss h q) = history (h q)"
  by (induction ss arbitrary: h) (auto split: option.splits)

lemma decrement_rounds_other: "q \<notin> set (seated_players ss) \<Longrightarrow> decrement_rounds ss h q = h q"
  by (induction ss arbitrary: h) (auto simp: seated_players_Cons seated_players_Nil split: option.splits)

lemma remove_finished_loop_spec:
  "remove_finished_loop h ss fin =
     (map (\<lambda>s. if evicted h s then s\<lparr>player := None\<rparr> else s) ss,
      fin @ seated_players (filter (evicted h) ss))"
proof (induction ss arbitrary: fin)
  case Nil
  show ?case by (simp add: seated_players_Nil)
next
  case (Cons s ss)
  show ?case
    by (cases "player s") (simp_all add: Cons.IH evicted_def seated_players_Cons)
qed

lemma vacant_eq: "vacant = (\<lambda>s. player s = None)"
  by (simp add: vacant_def fun_eq_iff)

lemma fill_empty_loop_length: "length (fst (fill_empty_loop ss pool)) = length ss"
  by (induction ss arbitrary: pool) (simp_all add: split_beta)

lemma fill_empty_loop_pool:
  "snd (fill_empty_loop ss pool) = drop (length (filter vacant ss)) pool"
proof (induction ss arbitrary: pool)
  case Nil
  show ?case by simp
next
  case (Cons s ss)
  show ?case
    by (cases pool) (simp_all add: Cons.IH vacant_eq split_beta)
qed

lemma fill_empty_loop_nth:
  "i < length ss \<Longrightarrow>
   fst (fill_empty_loop ss pool) ! i =
     (if vacant (ss ! i) \<and> length (filter vacant (take i ss)) < length pool
      then (ss ! i)\<lparr>player := Some (pool ! length (filter vacant (take i ss)))\<rparr>
      else ss ! i)"
proof (induction ss arbitrary: pool i)
  case Nil
  then show ?case by simp
next
  case (Cons s ss)
  show ?case
  proof (cases i)
    case 0
    then show ?thesis
      by (cases pool) (simp_all add: vacant_eq split_beta)
  next
    case (Suc j)
    with Cons.prems have j: "j < length ss" by simp
    show ?thesis
    proof (cases "player s = None \<and> length pool > 0")
      case True
      then obtain x xs where pool: "pool = x # xs" by (cases pool) auto
      from True have "fst (fill_empty_loop (s # ss) pool) ! i = fst (fill_empty_loop ss (tl pool)) ! j"
        by (simp add: Suc split_beta)
      also note Cons.IH [OF j]
      finally show ?thesis using True by (simp add: Suc pool vacant_eq)
    next
      case False
      then have "fst (fill_empty_loop (s # ss) pool) ! i = fst (fill_empty_loop ss pool) ! j"
        by (auto simp: Suc split_beta)
      also note Cons.IH [OF j]
      finally show ?thesis using False by (auto simp: Suc vacant_eq)
    qed
  qed
qed

lemma seated_players_map_evict:
  "mset (seated_players (map (\<lambda>s. if evicted h s then s\<lparr>player := None\<rparr> else s) ss)) +
     mset (seated_players (filter (evicted h) ss)) = mset (seated_players ss)"
  by (induction ss) (auto simp: seated_players_Cons seated_players_Nil evicted_def split: option.splits)

lemma remove_finished_loop_mset:
  "mset (seated_players (fst (remove_finished_loop h ss fin))) + mset (snd (remove_finished_loop h ss fin)) =
     mset (seated_players ss) + mset fin"
  using seated_players_map_evict [of h ss] by (simp add: remove_finished_loop_spec)

lemma fill_empty_loop_mset:
  "mset (seated_players (fst (fill_empty_loop ss pool))) + mset (snd (fill_empty_loop ss pool)) =
     mset (seated_players ss) + mset pool"
proof (induction ss arbitrary: pool)
  case Nil
  show ?case by simp
next
  case (Cons s ss)
  show ?case
  proof (cases "player s = None \<and> length pool > 0")
    case True
    then obtain x xs where pool: "pool = x # xs" by (cases pool) auto
    from Cons.IH [of xs] True show ?thesis
      by (simp add: pool split_beta seated_players_Cons)
  next
    case False
    with Cons.IH [of pool] show ?thesis
      by (auto simp: split_beta seated_players_Cons split: option.splits)
  qed
qed

lemma remove_finished_loop_index:
  "map seat_index (fst (remove_finished_loop h ss fin)) = map seat_index ss"
  by (simp add: remove_finished_loop_spec)

lemma fill_empty_loop_index:
  "map seat_index (fst (fill_empty_loop ss pool)) = map seat_index ss"
  by (induction ss arbitrary: pool) (simp_all add: split_beta)

lemma play_round_Inr:
  assumes "play_round sh ri h c t pool = Inr (h', c', t', pool', ev)"
  obtains ph d1 dh d2 ph' d3 played dh' d4 h1 profit1 res where
    "deal_players (seats_list t) (shuffle_deck sh (Deck_init 20)) [] = Inr (ph, d1)"
    "deal_dealer d1 = Inr (dh, d2)"
    "player_actions ph d2 (total_hands_played c) = Inr (ph', d3, played)"
    "dealer_hit dh d3 = Inr (dh', d4)"
    "settle (seats_list t) (gen_bets ri 0 (seats_list t) []) (hand_total dh') ph'
       (h, casino_profit c, []) = Inr (h1, profit1, res)"
    "h' = decrement_rounds (seats_list t) h1"
    "c' = c\<lparr>casino_profit := profit1, total_hands_played := played,
           finished_players := snd (remove_finished_loop h' (seats_list t) (finished_players c))\<rparr>"
    "seats_list t' = fst (fill_empty_loop (fst (remove_finished_loop h' (seats_list t) (finished_players c))) pool)"
    "pool' = snd (fill_empty_loop (fst (remove_finished_loop h' (seats_list t) (finished_players c))) pool)"
    "current_round_number t' = current_round_number t + 1"
    "table_id t' = table_id t" "num_seats t' = num_seats t"
    "ev = \<lparr>event_table_id = table_id t, round_num = current_round_number t,
           initial_bets = gen_bets ri 0 (seats_list t) [], results = res,
           seats_after = map (seat_after h') (seats_list t'),
           profit_delta = profit1 - casino_profit c, hands = ph', dealer_hand = dh'\<rparr>"
  using assms
  unfolding play_round_def Let_def remove_finished_players_def fill_empty_seats_def
  by (auto simp: split_beta split: sum.splits)

lemma seats_indexed_distinct: "seats_indexed ss \<Longrightarrow> distinct (map seat_index ss)"
  by (simp add: seats_indexed_def)

lemma seats_indexed_nth: "seats_indexed ss \<Longrightarrow> i < length ss \<Longrightarrow> seat_index (ss ! i) = i"
proof -
  assume a: "seats_indexed ss" "i < length ss"
  then have "map seat_index ss ! i = [0..<length ss] ! i" by (simp add: seats_indexed_def)
  with a(2) show ?thesis by simp
qed

lemma seats_indexed_self:
  "seats_indexed ss \<Longrightarrow> s \<in> set ss \<Longrightarrow> seat_index s < length ss \<and> ss ! seat_index s = s"
proof -
  assume a: "seats_indexed ss" "s \<in> set ss"
  then obtain i where i: "i < length ss" "ss ! i = s" by (auto simp: in_set_conv_nth)
  with seats_indexed_nth [OF a(1) i(1)] show ?thesis by simp
qed

lemma occupied_players:
  "seats_indexed ss \<Longrightarrow> map (player_at ss) (occupied_indices ss) = seated_players ss"
  by (auto simp: occupied_indices_def seated_players_def player_at_def dest: seats_indexed_self)

lemma occupied_indices_mem:
  "seats_indexed ss \<Longrightarrow>
   si \<in> set (occupied_indices ss) \<longleftrightarrow> si < length ss \<and> player (ss ! si) \<noteq> None"
proof
  assume a: "seats_indexed ss" "si \<in> set (occupied_indices ss)"
  then obtain s where s: "s \<in> set ss" "player s \<noteq> None" "si = seat_index s"
    by (auto simp: occupied_indices_def)
  with seats_indexed_self [OF a(1) s(1)] show "si < length ss \<and> player (ss ! si) \<noteq> None" by simp
next
  assume a: "seats_indexed ss" "si < length ss \<and> player (ss ! si) \<noteq> None"
  then have "ss ! si \<in> set ss" "seat_index (ss ! si) = si"
    by (simp_all add: seats_indexed_nth)
  with a(2) show "si \<in> set (occupied_indices ss)"
    by (force simp: occupied_indices_def)
qed

lemma distinct_occupied_indices: "seats_indexed ss \<Longrightarrow> distinct (occupied_indices ss)"
  unfolding occupied_indices_def by (rule distinct_map_filter) (rule seats_indexed_distinct)

lemma zip_zip_append:
  "length xs = length hs \<Longrightarrow> length es = length hs \<Longrightarrow>
   map (\<lambda>((i, hnd), e). (i, hnd @ e)) (zip (zip xs hs) es) = zip xs (map (\<lambda>(hnd, e). hnd @ e) (zip hs es))"
proof (induction xs hs arbitrary: es rule: list_induct2)
  case Nil
  then show ?case by simp
next
  case (Cons x xs y ys)
  then show ?case by (cases es) auto
qed

lemma list_all2_zip_snd:
  "length xs = length hs \<Longrightarrow> list_all2 (\<lambda>(i, hnd) e. P hnd e) (zip xs hs) es \<Longrightarrow> list_all2 P hs es"
proof (induction xs hs arbitrary: es rule: list_induct2)
  case Nil
  then show ?case by simp
next
  case (Cons x xs y ys)
  then show ?case by (cases es) auto
qed

lemma deal_dealer_spec:
  "deal_dealer d = Inr (dh, d') \<Longrightarrow> length dh = 2 \<and> d = d' @ rev dh"
  by (auto simp: deal_dealer_def split: sum.splits dest!: draw_card_Inr)

lemma play_round_hands:
  assumes pr: "play_round sh ri h c t pool = Inr (h', c', t', pool', ev)"
    and idx: "seats_indexed (seats_list t)"
  obtains hs es bs dh de rest where
    "length hs = length (occupied_indices (seats_list t))"
    "length es = length hs" "length bs = length hs"
    "\<forall>x \<in> set hs. length x = 2" "length dh = 2"
    "list_all2 hits_ok hs es" "hits_ok dh de"
    "hands ev = zip (occupied_indices (seats_list t)) (map (\<lambda>(hnd, e). hnd @ e) (zip hs es))"
    "initial_bets ev = zip (occupied_indices (seats_list t)) bs" "set bs \<subseteq> range ri"
    "dealer_hand ev = dh @ de"
    "shuffle_deck sh (Deck_init 20) = rest @ rev (concat hs @ dh @ concat es @ de)"
    "total_hands_played c' = total_hands_played c + int (length (occupied_indices (seats_list t)))"
proof -
  let ?ss = "seats_list t" and ?oi = "occupied_indices (seats_list t)"
  from pr obtain ph d1 dh d2 ph' d3 played dh' d4 h1 profit1 res where
    s: "deal_players ?ss (shuffle_deck sh (Deck_init 20)) [] = Inr (ph, d1)"
    "deal_dealer d1 = Inr (dh, d2)"
    "player_actions ph d2 (total_hands_played c) = Inr (ph', d3, played)"
    "dealer_hit dh d3 = Inr (dh', d4)"
    and c': "c' = c\<lparr>casino_profit := profit1, total_hands_played := played,
           finished_players := snd (remove_finished_loop h' ?ss (finished_players c))\<rparr>"
    and ev: "ev = \<lparr>event_table_id = table_id t, round_num = current_round_number t,
           initial_bets = gen_bets ri 0 ?ss [], results = res,
           seats_after = map (seat_after h') (seats_list t'),
           profit_delta = profit1 - casino_profit c, hands = ph', dealer_hand = dh'\<rparr>"
    by (rule play_round_Inr)
  have dist: "distinct (map seat_index ?ss)" using idx by (rule seats_indexed_distinct)
  from deal_players_spec [OF dist _ s(1)] obtain hs where
    hs: "length hs = length ?oi" "\<forall>x \<in> set hs. length x = 2" "ph = zip ?oi hs"
    "shuffle_deck sh (Deck_init 20) = d1 @ rev (concat hs)" by auto
  from deal_dealer_spec [OF s(2)] have dh: "length dh = 2" "d1 = d2 @ rev dh" by simp_all
  from player_actions_spec [OF s(3)] obtain es where
    es: "played = total_hands_played c + int (length ph)" "length es = length ph"
    "ph' = map (\<lambda>((i, hnd), e). (i, hnd @ e)) (zip ph es)" "d2 = d3 @ rev (concat es)"
    "list_all2 (\<lambda>(i, hnd) e. hits_ok hnd e) ph es" by blast
  from dealer_hit_grows [OF s(4)] obtain de where
    de: "dh' = dh @ de" "d3 = d4 @ rev de" "hits_ok dh de"
    unfolding hits_ok_def by auto
  from gen_bets_spec [OF dist, of "[]" ri 0] obtain bs where
    bs: "length bs = length ?oi" "set bs \<subseteq> range ri" "gen_bets ri 0 ?ss [] = zip ?oi bs" by auto
  have len: "length es = length hs" "length ph = length ?oi" using es(2) hs(1,3) by simp_all
  show ?thesis
  proof (rule that [of hs es bs dh de d4])
    show "length hs = length ?oi" by (rule hs(1))
    show "length es = length hs" by (rule len(1))
    show "length bs = length hs" using bs(1) hs(1) by simp
    show "\<forall>x \<in> set hs. length x = 2" by (rule hs(2))
    show "length dh = 2" by (rule dh(1))
    show "list_all2 hits_ok hs es"
      using list_all2_zip_snd [OF hs(1) [symmetric] es(5) [unfolded hs(3)]] .
    show "hits_ok dh de" by (rule de(3))
    show "hands ev = zip ?oi (map (\<lambda>(hnd, e). hnd @ e) (zip hs es))"
      using zip_zip_append [OF hs(1) [symmetric] len(1)] by (simp add: ev es(3) hs(3))
    show "initial_bets ev = zip ?oi bs" by (simp add: ev bs(3))
    show "set bs \<subseteq> range ri" by (rule bs(2))
    show "dealer_hand ev = dh @ de" by (simp add: ev de(1))
    show "shuffle_deck sh (Deck_init 20) = d4 @ rev (concat hs @ dh @ concat es @ de)"
      by (simp add: hs(4) dh(2) es(4) de(2))
    show "total_hands_played c' = total_hands_played c + int (length ?oi)"
      by (simp add: c' es(1) len(2))
  qed
qed

section \<open>Settlement\<close>

lemma play_round_settlement:
  assumes pr: "play_round sh ri h c t pool = Inr (h', c', t', pool', ev)"
    and idx: "seats_indexed (seats_list t)"
    and dist: "distinct (seated_players (seats_list t))"
  shows "map fst (hands ev) = occupied_indices (seats_list t)"
    and "map fst (initial_bets ev) = occupied_indices (seats_list t)"
    and "results ev = map (\<lambda>(si, hnd). \<lparr>result_seat_index = si,
            player_name = first_name (h (player_at (seats_list t) si)),
            money_delta = house_delta (hand_total (dealer_hand ev)) (bet_at (initial_bets ev) si)
                            (hand_total hnd)\<rparr>) (hands ev)"
    and "casino_profit c' = casino_profit c +
           (\<Sum>(si, hnd)\<leftarrow>hands ev. house_delta (hand_total (dealer_hand ev))
                (bet_at (initial_bets ev) si) (hand_total hnd))"
    and "\<forall>(si, hnd) \<in> set (hands ev). h' (player_at (seats_list t) si) =
           (settled (hand_total (dealer_hand ev)) (bet_at (initial_bets ev) si) (hand_total hnd)
              (h (player_at (seats_list t) si)))
           \<lparr>rounds_left := rounds_left (h (player_at (seats_list t) si)) - 1\<rparr>"
    and "\<forall>q. q \<notin> set (seated_players (seats_list t)) \<longrightarrow> h' q = h q"
    and "profit_delta ev = casino_profit c' - casino_profit c"
proof -
  let ?ss = "seats_list t" and ?oi = "occupied_indices (seats_list t)"
  from pr obtain ph d1 dh d2 ph' d3 played dh' d4 h1 profit1 res where
    st: "settle ?ss (gen_bets ri 0 ?ss []) (hand_total dh') ph' (h, casino_profit c, []) =
          Inr (h1, profit1, res)"
    and h': "h' = decrement_rounds ?ss h1"
    and c': "c' = c\<lparr>casino_profit := profit1, total_hands_played := played,
           finished_players := snd (remove_finished_loop h' ?ss (finished_players c))\<rparr>"
    and ev: "ev = \<lparr>event_table_id = table_id t, round_num = current_round_number t,
           initial_bets = gen_bets ri 0 ?ss [], results = res,
           seats_after = map (seat_after h') (seats_list t'),
           profit_delta = profit1 - casino_profit c, hands = ph', dealer_hand = dh'\<rparr>"
    by (rule play_round_Inr)
  from pr idx obtain hs es bs where
    len: "length hs = length ?oi" "length es = length hs" "length bs = length hs"
    and hands: "hands ev = zip ?oi (map (\<lambda>(hnd, e). hnd @ e) (zip hs es))"
    and bets: "initial_bets ev = zip ?oi bs"
    by (rule play_round_hands)
  have evh: "hands ev = ph'" "initial_bets ev = gen_bets ri 0 ?ss []" "dealer_hand ev = dh'"
    "results ev = res" by (simp_all add: ev)
  show keys: "map fst (hands ev) = ?oi" using len by (simp add: hands)
  show bkeys: "map fst (initial_bets ev) = ?oi" using len by (simp add: bets)
  have pre1: "\<forall>(si, hnd) \<in> set (hands ev). si < length ?ss \<and> map_of (initial_bets ev) si \<noteq> None \<and>
      player (?ss ! si) \<noteq> None"
  proof (clarify, intro conjI)
    fix si hnd assume "(si, hnd) \<in> set (hands ev)"
    then have "si \<in> set (map fst (hands ev))" by force
    then have m: "si \<in> set ?oi" by (simp only: keys)
    with occupied_indices_mem [OF idx, of si]
    show "si < length ?ss" "player (?ss ! si) \<noteq> None" by simp_all
    from m have "si \<in> fst ` set (initial_bets ev)"
      using bkeys by (metis list.set_map)
    then show "map_of (initial_bets ev) si \<noteq> None"
      by (simp add: map_of_eq_None_iff)
  qed
  have "map (\<lambda>(si, hnd). player_at ?ss si) (hands ev) = map (player_at ?ss) (map fst (hands ev))"
    by (simp add: case_prod_beta comp_def)
  also have "\<dots> = seated_players ?ss"
    by (simp only: keys occupied_players [OF idx])
  finally have pl: "map (\<lambda>(si, hnd). player_at ?ss si) (hands ev) = seated_players ?ss" .
  with dist have pre2: "distinct (map (\<lambda>(si, hnd). player_at ?ss si) (hands ev))" by simp
  from settle_spec [OF pre1 pre2, of "hand_total dh'" h "casino_profit c" "[]"] st
  have s1: "profit1 = casino_profit c +
         (\<Sum>(si, hnd)\<leftarrow>hands ev. house_delta (hand_total dh') (bet_at (initial_bets ev) si) (hand_total hnd))"
    and s2: "res = map (\<lambda>(si, hnd). \<lparr>result_seat_index = si,
                    player_name = first_name (h (player_at ?ss si)),
                    money_delta = house_delta (hand_total dh') (bet_at (initial_bets ev) si) (hand_total hnd)\<rparr>) (hands ev)"
    and s3: "\<forall>q. q \<notin> (\<lambda>(si, hnd). player_at ?ss si) ` set (hands ev) \<longrightarrow> h1 q = h q"
    and s4: "\<forall>(si, hnd) \<in> set (hands ev). h1 (player_at ?ss si) =
          settled (hand_total dh') (bet_at (initial_bets ev) si) (hand_total hnd) (h (player_at ?ss si))"
    unfolding evh by auto
  have img: "(\<lambda>(si, hnd). player_at ?ss si) ` set (hands ev) = set (seated_players ?ss)"
    using pl by (metis list.set_map)
  show "results ev = map (\<lambda>(si, hnd). \<lparr>result_seat_index = si,
            player_name = first_name (h (player_at ?ss si)),
            money_delta = house_delta (hand_total (dealer_hand ev)) (bet_at (initial_bets ev) si)
                            (hand_total hnd)\<rparr>) (hands ev)"
    using s2 by (simp add: evh)
  show "casino_profit c' = casino_profit c +
           (\<Sum>(si, hnd)\<leftarrow>hands ev. house_delta (hand_total (dealer_hand ev))
                (bet_at (initial_bets ev) si) (hand_total hnd))"
    using s1 by (simp add: c' evh(3))
  show "\<forall>(si, hnd) \<in> set (hands ev). h' (player_at ?ss si) =
           (settled (hand_total (dealer_hand ev)) (bet_at (initial_bets ev) si) (hand_total hnd)
              (h (player_at ?ss si)))
           \<lparr>rounds_left := rounds_left (h (player_at ?ss si)) - 1\<rparr>"
  proof (clarify)
    fix si hnd assume m: "(si, hnd) \<in> set (hands ev)"
    then have "player_at ?ss si \<in> set (seated_players ?ss)"
      using img by force
    then have "h' (player_at ?ss si) =
        (h1 (player_at ?ss si))\<lparr>rounds_left := rounds_left (h1 (player_at ?ss si)) - 1\<rparr>"
      by (simp add: h' decrement_rounds_spec [OF dist])
    also from s4 m have "h1 (player_at ?ss si) =
        settled (hand_total dh') (bet_at (initial_bets ev) si) (hand_total hnd) (h (player_at ?ss si))"
      by auto
    finally show "h' (player_at ?ss si) =
           (settled (hand_total (dealer_hand ev)) (bet_at (initial_bets ev) si) (hand_total hnd)
              (h (player_at ?ss si)))
           \<lparr>rounds_left := rounds_left (h (player_at ?ss si)) - 1\<rparr>"
      by (simp add: evh(3) settled_def rounds_left_record_outcome)
  qed
  show "\<forall>q. q \<notin> set (seated_players ?ss) \<longrightarrow> h' q = h q"
    using s3 by (simp add: h' img decrement_rounds_other)
  show "profit_delta ev = casino_profit c' - casino_profit c"
    by (simp add: ev c')
qed

lemma play_round_seat:
  assumes pr: "play_round sh ri h c t pool = Inr (h', c', t', pool', ev)"
    and idx: "seats_indexed (seats_list t)"
    and dist: "distinct (seated_players (seats_list t))"
    and i: "i < length (seats_list t)" and p: "player (seats_list t ! i) = Some p"
  obtains b hnd where
    "map_of (initial_bets ev) i = Some b" "map_of (hands ev) i = Some hnd"
    "h' p = (settled (hand_total (dealer_hand ev)) b (hand_total hnd) (h p))
              \<lparr>rounds_left := rounds_left (h p) - 1\<rparr>"
    "\<lparr>result_seat_index = i, player_name = first_name (h p),
      money_delta = house_delta (hand_total (dealer_hand ev)) b (hand_total hnd)\<rparr> \<in> set (results ev)"
proof -
  let ?ss = "seats_list t" and ?oi = "occupied_indices (seats_list t)"
  note s = play_round_settlement [OF pr idx dist]
  have mem: "i \<in> set ?oi" using occupied_indices_mem [OF idx, of i] i p by simp
  have d: "distinct ?oi" using idx by (rule distinct_occupied_indices)
  from mem s(1) obtain hnd where hnd: "(i, hnd) \<in> set (hands ev)"
    by (metis (no_types, lifting) imageE list.set_map prod.collapse)
  from mem s(2) obtain b where b: "(i, b) \<in> set (initial_bets ev)"
    by (metis (no_types, lifting) imageE list.set_map prod.collapse)
  have mh: "map_of (hands ev) i = Some hnd"
    using hnd d s(1) by (simp add: map_of_is_SomeI)
  have mb: "map_of (initial_bets ev) i = Some b"
    using b d s(2) by (simp add: map_of_is_SomeI)
  have pa: "player_at ?ss i = p" "bet_at (initial_bets ev) i = b"
    using p mb by (simp_all add: player_at_def bet_at_def)
  from s(5) hnd have "h' (player_at ?ss i) =
      (settled (hand_total (dealer_hand ev)) (bet_at (initial_bets ev) i) (hand_total hnd)
              (h (player_at ?ss i)))\<lparr>rounds_left := rounds_left (h (player_at ?ss i)) - 1\<rparr>"
    by auto
  then have hp: "h' p = (settled (hand_total (dealer_hand ev)) b (hand_total hnd) (h p))
              \<lparr>rounds_left := rounds_left (h p) - 1\<rparr>"
    by (simp only: pa)
  have "(\<lambda>(si, hnd). \<lparr>result_seat_index = si,
            player_name = first_name (h (player_at ?ss si)),
            money_delta = house_delta (hand_total (dealer_hand ev)) (bet_at (initial_bets ev) si)
                            (hand_total hnd)\<rparr>) (i, hnd) \<in> set (results ev)"
    unfolding s(3) set_map using hnd by (rule imageI)
  then have r: "\<lparr>result_seat_index = i, player_name = first_name (h p),
      money_delta = house_delta (hand_total (dealer_hand ev)) b (hand_total hnd)\<rparr> \<in> set (results ev)"
    by (simp add: pa)
  from mb mh hp r show ?thesis by (rule that)
qed

section \<open>Two rounds evaluated\<close>

lemma draw_card_on_top: "draw_card (on_top d (c # cs)) = Inr (c, on_top d cs)"
  by (simp add: on_top_def draw_card_def butlast_append)

lemma Deck_init_Suc: "Deck_init (Suc n) = one_deck @ Deck_init n"
  by (simp add: Deck_init_def)

lemma Deck_init_Suc2: "Deck_init (Suc n) = Deck_init n @ one_deck"
  by (induction n) (simp_all add: Deck_init_def)

lemma one_deck_back:
  "one_deck = take 48 one_deck @
     [(''10'', ''Diamond'', 10), (''J'', ''Diamond'', 10), (''Q'', ''Diamond'', 10),
      (''K'', ''Diamond'', 10)]"
  by (simp add: one_deck_def CARD_LIST_def SUITS_def)

lemma one_deck_front:
  "take 9 one_deck =
     [(''A'', ''Heart'', 11), (''2'', ''Heart'', 2), (''3'', ''Heart'', 3), (''4'', ''Heart'', 4),
      (''5'', ''Heart'', 5), (''6'', ''Heart'', 6), (''7'', ''Heart'', 7), (''8'', ''Heart'', 8),
      (''9'', ''Heart'', 9)]"
  by (simp add: one_deck_def CARD_LIST_def SUITS_def)

lemma shoe_no_shuffle:
  "\<exists>d. shuffle_deck no_shuffle (Deck_init 20) =
     on_top d [(''K'', ''Diamond'', 10), (''Q'', ''Diamond'', 10), (''J'', ''Diamond'', 10),
               (''10'', ''Diamond'', 10)]"
proof -
  have "Deck_init 20 = Deck_init 19 @ one_deck"
    using Deck_init_Suc2 [of 19] by simp
  also have "\<dots> = (Deck_init 19 @ take 48 one_deck) @
     [(''10'', ''Diamond'', 10), (''J'', ''Diamond'', 10), (''Q'', ''Diamond'', 10),
      (''K'', ''Diamond'', 10)]"
    by (subst one_deck_back) simp
  finally show ?thesis
    by (intro exI [of _ "Deck_init 19 @ take 48 one_deck"])
       (simp add: shuffle_deck_def no_shuffle_def on_top_def)
qed

lemma shoe_cut_shuffle:
  "\<exists>d. shuffle_deck cut_shuffle (Deck_init 20) =
     on_top d [(''9'', ''Heart'', 9), (''8'', ''Heart'', 8), (''7'', ''Heart'', 7),
               (''6'', ''Heart'', 6), (''5'', ''Heart'', 5), (''4'', ''Heart'', 4),
               (''3'', ''Heart'', 3), (''2'', ''Heart'', 2), (''A'', ''Heart'', 11),
               (''K'', ''Diamond'', 10), (''Q'', ''Diamond'', 10), (''J'', ''Diamond'', 10),
               (''10'', ''Diamond'', 10)]"
proof -
  let ?x = "Deck_init 19 @ take 48 one_deck"
  let ?t = "[(''10'', ''Diamond'', 10), (''J'', ''Diamond'', 10), (''Q'', ''Diamond'', 10),
      (''K'', ''Diamond'', 10)]"
  have "Deck_init 20 = one_deck @ Deck_init 19"
    using Deck_init_Suc [of 19] by simp
  then have c: "take 9 (Deck_init 20) = take 9 one_deck"
    by (simp add: length_one_deck)
  have "Deck_init 20 = Deck_init 19 @ one_deck"
    using Deck_init_Suc2 [of 19] by simp
  also have "\<dots> = ?x @ ?t"
    by (subst one_deck_back) simp
  finally have e: "Deck_init 20 = ?x @ ?t" .
  have "9 \<le> length ?x" by (simp add: length_Deck_init length_one_deck)
  then have "drop 9 (?x @ ?t) = drop 9 ?x @ ?t" by simp
  with e have b: "drop 9 (Deck_init 20) = drop 9 ?x @ ?t" by simp
  show ?thesis
    by (intro exI [of _ "drop 9 ?x"])
       (simp add: shuffle_deck_def cut_shuffle_def on_top_def b c one_deck_front)
qed

lemmas round_eval = play_round_def Let_def deal_dealer_def hand_total_def card_value_def
  settle_hand_def remove_finished_players_def fill_empty_seats_def record_outcome_def
  seat_after_def draw_card_on_top round_view_def player_hit.simps dealer_hit.simps

lemma round_A:
  "round_view (play_round cut_shuffle bets0 h0 c0 t0 [3]) [1, 2, 3, 4] =
     Inr (players_A, casino_A, table_A, [], event_A)"
proof -
  obtain d where d: "shuffle_deck cut_shuffle (Deck_init 20) =
     on_top d [(''9'', ''Heart'', 9), (''8'', ''Heart'', 8), (''7'', ''Heart'', 7),
               (''6'', ''Heart'', 6), (''5'', ''Heart'', 5), (''4'', ''Heart'', 4),
               (''3'', ''Heart'', 3), (''2'', ''Heart'', 2), (''A'', ''Heart'', 11),
               (''K'', ''Diamond'', 10), (''Q'', ''Diamond'', 10), (''J'', ''Diamond'', 10),
               (''10'', ''Diamond'', 10)]"
    using shoe_cut_shuffle by blast
  show ?thesis
    by (simp add: round_eval d bets0_def h0_def c0_def t0_def players_A_def casino_A_def
        table_A_def event_A_def)
qed

lemma round_B:
  "round_view (play_round no_shuffle bets0 h0 c0 t1 []) [1] =
     Inr (players_B, casino_B, table_B, [], event_B)"
proof -
  obtain d where d: "shuffle_deck no_shuffle (Deck_init 20) =
     on_top d [(''K'', ''Diamond'', 10), (''Q'', ''Diamond'', 10), (''J'', ''Diamond'', 10),
               (''10'', ''Diamond'', 10)]"
    using shoe_no_shuffle by blast
  show ?thesis
    by (simp add: round_eval d bets0_def h0_def c0_def t1_def players_B_def casino_B_def
        table_B_def event_B_def)
qed

lemma round_view_Inr:
  "round_view r ps = Inr (xs, c, t, pool, ev) \<Longrightarrow> \<exists>h. r = Inr (h, c, t, pool, ev) \<and> map h ps = xs"
  by (auto simp: round_view_def split: sum.splits)

section \<open>Settlement by totals\<close>

lemma last_history_record_outcome: "last (history (record_outcome oc pl)) = oc"
  by (simp add: record_outcome_def Let_def)

lemma length_history_record_outcome: "length (history (record_outcome oc pl)) \<le> 5"
  by (simp add: record_outcome_def Let_def)

lemma history_record_outcome_drop:
  "history (record_outcome oc pl) =
     drop (length (history pl @ [oc]) - 5) (history pl @ [oc])"
  by (simp add: record_outcome_def Let_def)

lemma money_left_settled:
  "money_left (settled dt b pt pl) = money_left pl - house_delta dt b pt"
  by (simp add: settled_def money_left_record_outcome)

lemma history_settled:
  "history (settled dt b pt pl) = history (record_outcome (outcome_of dt b pt) pl)"
  by (simp add: settled_def record_outcome_def Let_def)

lemma play_round_results:
  assumes pr: "play_round sh ri h c t pool = Inr (h', c', t', pool', ev)"
    and idx: "seats_indexed (seats_list t)"
    and dist: "distinct (seated_players (seats_list t))"
  shows "map result_seat_index (results ev) = occupied_indices (seats_list t)"
    and "casino_profit c' = casino_profit c + (\<Sum>r\<leftarrow>results ev. money_delta r)"
proof -
  note s = play_round_settlement [OF pr idx dist]
  have "map result_seat_index (results ev) = map fst (hands ev)"
    unfolding s(3) by (simp add: case_prod_beta comp_def)
  then show "map result_seat_index (results ev) = occupied_indices (seats_list t)"
    by (simp only: s(1))
  have "(\<Sum>r\<leftarrow>results ev. money_delta r) =
      (\<Sum>(si, hnd)\<leftarrow>hands ev. house_delta (hand_total (dealer_hand ev))
                (bet_at (initial_bets ev) si) (hand_total hnd))"
    unfolding s(3) by (simp add: case_prod_unfold comp_def)
  with s(4) show "casino_profit c' = casino_profit c + (\<Sum>r\<leftarrow>results ev. money_delta r)"
    by simp
qed

text \<open>
  C1. A round that returns, on a table whose seats are indexed by position and hold
  pairwise different players: for the occupied seat \<open>i\<close> with player \<open>p\<close>, the event
  records a bet \<open>b\<close> and a final hand for the seat, and has a result entry \<open>r\<close> for it.
  If the hand's total exceeds 21, or else is below the dealer's total and the dealer has
  not bust, the balance of \<open>p\<close> goes down by \<open>b\<close>, the entry's money delta is \<open>+b\<close> and
  the outcome recorded is a loss. If the player has not bust and the dealer has, or the
  player's total is the greater, the balance goes up by \<open>b\<close>, the delta is \<open>-b\<close> and the
  outcome is a win. If neither has bust and the totals are equal, the balance is unchanged
  and the delta is 0. There is exactly one result entry per occupied seat, and the casino
  profit grows by the sum of the money deltas: by \<open>+b\<close> for a loss, \<open>-b\<close> for a win, 0 for
  a push.
\<close>

theorem settlement_by_totals:
  assumes "play_round sh ri h c t pool = Inr (h', c', t', pool', ev)"
    and "seats_indexed (seats_list t)"
    and "distinct (seated_players (seats_list t))"
    and "i < length (seats_list t)" and "player (seats_list t ! i) = Some p"
  shows "\<exists>b hnd r.
      map_of (initial_bets ev) i = Some b \<and> map_of (hands ev) i = Some hnd \<and>
      r \<in> set (results ev) \<and> result_seat_index r = i \<and> player_name r = first_name (h p) \<and>
      (21 < hand_total hnd \<or>
         (hand_total (dealer_hand ev) \<le> 21 \<and> hand_total hnd < hand_total (dealer_hand ev)) \<longrightarrow>
       money_left (h' p) = money_left (h p) - b \<and> money_delta r = b \<and>
       last (history (h' p)) = (''loss'', b)) \<and>
      (hand_total hnd \<le> 21 \<and>
         (21 < hand_total (dealer_hand ev) \<or> hand_total (dealer_hand ev) < hand_total hnd) \<longrightarrow>
       money_left (h' p) = money_left (h p) + b \<and> money_delta r = - b \<and>
       last (history (h' p)) = (''win'', b)) \<and>
      (hand_total hnd \<le> 21 \<and> hand_total (dealer_hand ev) \<le> 21 \<and>
         hand_total hnd = hand_total (dealer_hand ev) \<longrightarrow>
       money_left (h' p) = money_left (h p) \<and> money_delta r = 0) \<and>
      map result_seat_index (results ev) = occupied_indices (seats_list t) \<and>
      distinct (occupied_indices (seats_list t)) \<and>
      casino_profit c' = casino_profit c + (\<Sum>r\<leftarrow>results ev. money_delta r)"
proof -
  let ?dt = "hand_total (dealer_hand ev)"
  from assms obtain b hnd where
    s: "map_of (initial_bets ev) i = Some b" "map_of (hands ev) i = Some hnd"
    "h' p = (settled ?dt b (hand_total hnd) (h p))\<lparr>rounds_left := rounds_left (h p) - 1\<rparr>"
    "\<lparr>result_seat_index = i, player_name = first_name (h p),
      money_delta = house_delta ?dt b (hand_total hnd)\<rparr> \<in> set (results ev)"
    by (rule play_round_seat)
  let ?r = "\<lparr>result_seat_index = i, player_name = first_name (h p),
      money_delta = house_delta ?dt b (hand_total hnd)\<rparr>"
  have m: "money_left (h' p) = money_left (h p) - house_delta ?dt b (hand_total hnd)"
    by (simp add: s(3) money_left_settled)
  have l: "last (history (h' p)) = outcome_of ?dt b (hand_total hnd)"
    by (simp add: s(3) history_settled last_history_record_outcome)
  note r = play_round_results [OF assms(1-3)]
  have d: "distinct (occupied_indices (seats_list t))"
    using assms(2) by (rule distinct_occupied_indices)
  show ?thesis
    apply (rule exI [of _ b], rule exI [of _ hnd], rule exI [of _ ?r])
    using s(1,2,4) m l r d
    apply (simp add: house_delta_def outcome_of_def)
    done
qed


lemma t0_indexed: "seats_indexed (seats_list t0)"
  by (simp add: seats_indexed_def t0_def upt_rec)

lemma t0_distinct: "distinct (seated_players (seats_list t0))"
  by (simp add: seated_players_def t0_def)

lemma t1_indexed: "seats_indexed (seats_list t1)"
  by (simp add: seats_indexed_def t1_def)

lemma t1_distinct: "distinct (seated_players (seats_list t1))"
  by (simp add: seated_players_def t1_def)

theorem settlement_by_totals_witness:
  "\<exists>h'. play_round cut_shuffle bets0 h0 c0 t0 [3] = Inr (h', casino_A, table_A, [], event_A) \<and>
     seats_indexed (seats_list t0) \<and> distinct (seated_players (seats_list t0)) \<and>
     (3::nat) < length (seats_list t0) \<and> player (seats_list t0 ! 3) = Some 4 \<and>
     map_of (initial_bets event_A) 3 = Some 80 \<and>
     map_of (hands event_A) 3 =
       Some [(''5'', ''Heart'', 5), (''4'', ''Heart'', 4), (''Q'', ''Diamond'', 10)] \<and>
     hand_total (dealer_hand event_A) = 25 \<and>
     money_left (h' 4) = money_left (h0 4) + 80 \<and> last (history (h' 4)) = (''win'', 80) \<and>
     casino_profit casino_A = casino_profit c0 + 60 + 70 - 80"
proof -
  from round_view_Inr [OF round_A] obtain hA where
    pr: "play_round cut_shuffle bets0 h0 c0 t0 [3] = Inr (hA, casino_A, table_A, [], event_A)"
    by blast
  have n: "3 < length (seats_list t0)" "player (seats_list t0 ! 3) = Some 4"
    by (simp_all add: t0_def)
  have e: "map_of (initial_bets event_A) 3 = Some 80"
    "map_of (hands event_A) 3 =
       Some [(''5'', ''Heart'', 5), (''4'', ''Heart'', 4), (''Q'', ''Diamond'', 10)]"
    "hand_total (dealer_hand event_A) = 25"
    "hand_total [(''5'', ''Heart'', 5), (''4'', ''Heart'', 4), (''Q'', ''Diamond'', 10)] = 19"
    by (simp_all add: event_A_def hand_total_def card_value_def)
  have "money_left (hA 4) = money_left (h0 4) + 80 \<and> last (history (hA 4)) = (''win'', 80) \<and>
     casino_profit casino_A = casino_profit c0 + 60 + 70 - 80"
    using settlement_by_totals [OF pr t0_indexed t0_distinct n]
    by (auto simp: e) (simp add: event_A_def)
  with pr t0_indexed t0_distinct n e show ?thesis by blast
qed

section \<open>Bust priority and conservation of money\<close>

text \<open>
  C2. In a round that returns (seats indexed by position, pairwise different seated
  players), a seat whose final hand totals more than 21 loses, whatever the dealer's
  total is, a dealer bust included: the balance goes down by the bet, the result entry
  carries \<open>+bet\<close> and the recorded outcome is a loss. The body of the settlement loop
  tests the player's bust first: for such a hand its effect is the same for every dealer
  total, profit up by the bet.
\<close>

theorem bust_loses_regardless_of_dealer:
  assumes "play_round sh ri h c t pool = Inr (h', c', t', pool', ev)"
    and "seats_indexed (seats_list t)"
    and "distinct (seated_players (seats_list t))"
    and "i < length (seats_list t)" and "player (seats_list t ! i) = Some p"
    and "map_of (hands ev) i = Some hnd" and "21 < hand_total hnd"
  shows "\<exists>b r.
      map_of (initial_bets ev) i = Some b \<and>
      r \<in> set (results ev) \<and> result_seat_index r = i \<and> money_delta r = b \<and>
      money_left (h' p) = money_left (h p) - b \<and> last (history (h' p)) = (''loss'', b) \<and>
      (\<forall>dt hh profit res.
         settle_hand dt i p b (hand_total hnd) (hh, profit, res) =
           (hh(p := record_outcome (''loss'', b) ((hh p)\<lparr>money_left := money_left (hh p) - b\<rparr>)),
            profit + b,
            res @ [\<lparr>result_seat_index = i, player_name = first_name (hh p), money_delta = b\<rparr>]))"
proof -
  let ?dt = "hand_total (dealer_hand ev)"
  from assms(1-5) obtain b hnd' where
    s: "map_of (initial_bets ev) i = Some b" "map_of (hands ev) i = Some hnd'"
    "h' p = (settled ?dt b (hand_total hnd') (h p))\<lparr>rounds_left := rounds_left (h p) - 1\<rparr>"
    "\<lparr>result_seat_index = i, player_name = first_name (h p),
      money_delta = house_delta ?dt b (hand_total hnd')\<rparr> \<in> set (results ev)"
    by (rule play_round_seat)
  from s(2) assms(6) have eq: "hnd' = hnd" by simp
  let ?r = "\<lparr>result_seat_index = i, player_name = first_name (h p),
      money_delta = house_delta ?dt b (hand_total hnd)\<rparr>"
  have hd: "house_delta ?dt b (hand_total hnd) = b" "outcome_of ?dt b (hand_total hnd) = (''loss'', b)"
    using assms(7) by (simp_all add: house_delta_def outcome_of_def)
  have m: "money_left (h' p) = money_left (h p) - b"
    by (simp add: s(3) eq money_left_settled hd)
  have l: "last (history (h' p)) = (''loss'', b)"
    by (simp add: s(3) eq history_settled last_history_record_outcome hd)
  have body: "\<forall>dt hh profit res.
         settle_hand dt i p b (hand_total hnd) (hh, profit, res) =
           (hh(p := record_outcome (''loss'', b) ((hh p)\<lparr>money_left := money_left (hh p) - b\<rparr>)),
            profit + b,
            res @ [\<lparr>result_seat_index = i, player_name = first_name (hh p), money_delta = b\<rparr>])"
    using assms(7) by (simp add: settle_hand_def)
  show ?thesis
    apply (rule exI [of _ b], rule exI [of _ ?r])
    using s(1) s(4) [unfolded eq] m l body hd(1)
    apply simp
    done
qed

theorem bust_loses_regardless_of_dealer_witness:
  "\<exists>h'. play_round cut_shuffle bets0 h0 c0 t0 [3] = Inr (h', casino_A, table_A, [], event_A) \<and>
     seats_indexed (seats_list t0) \<and> distinct (seated_players (seats_list t0)) \<and>
     (0::nat) < length (seats_list t0) \<and> player (seats_list t0 ! 0) = Some 1 \<and>
     map_of (hands event_A) 0 =
       Some [(''9'', ''Heart'', 9), (''8'', ''Heart'', 8), (''A'', ''Heart'', 11)] \<and>
     21 < hand_total [(''9'', ''Heart'', 9), (''8'', ''Heart'', 8), (''A'', ''Heart'', 11)] \<and>
     21 < hand_total (dealer_hand event_A) \<and>
     map_of (initial_bets event_A) 0 = Some 60 \<and>
     money_left (h' 1) = money_left (h0 1) - 60 \<and> last (history (h' 1)) = (''loss'', 60)"
proof -
  from round_view_Inr [OF round_A] obtain hA where
    pr: "play_round cut_shuffle bets0 h0 c0 t0 [3] = Inr (hA, casino_A, table_A, [], event_A)"
    by blast
  have n: "0 < length (seats_list t0)" "player (seats_list t0 ! 0) = Some 1"
    by (simp_all add: t0_def)
  have e: "map_of (hands event_A) 0 =
       Some [(''9'', ''Heart'', 9), (''8'', ''Heart'', 8), (''A'', ''Heart'', 11)]"
    "21 < hand_total [(''9'', ''Heart'', 9), (''8'', ''Heart'', 8), (''A'', ''Heart'', 11)]"
    "21 < hand_total (dealer_hand event_A)"
    "map_of (initial_bets event_A) 0 = Some 60"
    by (simp_all add: event_A_def hand_total_def card_value_def)
  have "money_left (hA 1) = money_left (h0 1) - 60 \<and> last (history (hA 1)) = (''loss'', 60)"
    using bust_loses_regardless_of_dealer [OF pr t0_indexed t0_distinct n e(1,2)]
    by (auto simp: e)
  with pr t0_indexed t0_distinct n e show ?thesis by blast
qed

lemma seated_players_mem:
  "i < length ss \<Longrightarrow> player (ss ! i) = Some p \<Longrightarrow> p \<in> set (seated_players ss)"
proof -
  assume "i < length ss" "player (ss ! i) = Some p"
  then have "ss ! i \<in> set (filter (\<lambda>s. player s \<noteq> None) ss)" "the (player (ss ! i)) = p"
    by simp_all
  then show ?thesis unfolding seated_players_def by force
qed

lemma sum_fun_upd:
  "finite S \<Longrightarrow> p \<in> S \<Longrightarrow>
   (\<Sum>q\<in>S. f ((h(p := x)) q)) = (\<Sum>q\<in>S. f (h q)) - f (h p) + (f x :: int)"
proof -
  assume a: "finite S" "p \<in> S"
  have "(\<Sum>q\<in>S. f ((h(p := x)) q)) = f x + (\<Sum>q\<in>S - {p}. f ((h(p := x)) q))"
    using a by (simp add: sum.remove)
  also have "(\<Sum>q\<in>S - {p}. f ((h(p := x)) q)) = (\<Sum>q\<in>S - {p}. f (h q))"
    by (rule sum.cong) auto
  also have "(\<Sum>q\<in>S. f (h q)) = f (h p) + (\<Sum>q\<in>S - {p}. f (h q))"
    using a by (simp add: sum.remove)
  ultimately show ?thesis by simp
qed

lemma settle_conserves:
  "finite S \<Longrightarrow> set (seated_players seats) \<subseteq> S \<Longrightarrow>
   settle seats ib dt es (h, profit, res) = Inr (h', profit', res') \<Longrightarrow>
   (\<Sum>q\<in>S. money_left (h' q)) + profit' = (\<Sum>q\<in>S. money_left (h q)) + profit"
proof (induction es arbitrary: h profit res)
  case Nil
  then show ?case by simp
next
  case (Cons x es)
  obtain si hnd where x: "x = (si, hnd)" by (cases x)
  from Cons.prems(3) x obtain bet p where
    si: "si < length seats" and p: "player (seats ! si) = Some p"
    and rec: "settle seats ib dt es (settle_hand dt si p bet (hand_total hnd) (h, profit, res)) =
        Inr (h', profit', res')"
    by (auto split: if_splits option.splits)
  have pS: "p \<in> S" using seated_players_mem [OF si p] Cons.prems(2) by auto
  let ?d = "house_delta dt bet (hand_total hnd)"
  let ?h1 = "h(p := settled dt bet (hand_total hnd) (h p))"
  from rec have rec': "settle seats ib dt es (?h1, profit + ?d,
      res @ [\<lparr>result_seat_index = si, player_name = first_name (h p), money_delta = ?d\<rparr>]) =
        Inr (h', profit', res')"
    by (simp add: settle_hand_eq settled_def)
  from Cons.IH [OF Cons.prems(1,2) rec']
  have "(\<Sum>q\<in>S. money_left (h' q)) + profit' = (\<Sum>q\<in>S. money_left (?h1 q)) + (profit + ?d)" .
  also have "(\<Sum>q\<in>S. money_left (?h1 q)) =
      (\<Sum>q\<in>S. money_left (h q)) - money_left (h p) + money_left (settled dt bet (hand_total hnd) (h p))"
    using Cons.prems(1) pS by (rule sum_fun_upd)
  finally show ?case by (simp add: money_left_settled)
qed

lemma settle_others:
  "q \<notin> set (seated_players seats) \<Longrightarrow>
   settle seats ib dt es (h, profit, res) = Inr (h', profit', res') \<Longrightarrow> h' q = h q"
proof (induction es arbitrary: h profit res)
  case Nil
  then show ?case by simp
next
  case (Cons x es)
  obtain si hnd where x: "x = (si, hnd)" by (cases x)
  from Cons.prems(2) x obtain bet p where
    si: "si < length seats" and p: "player (seats ! si) = Some p"
    and rec: "settle seats ib dt es (settle_hand dt si p bet (hand_total hnd) (h, profit, res)) =
        Inr (h', profit', res')"
    by (auto split: if_splits option.splits)
  have ne: "p \<noteq> q" using seated_players_mem [OF si p] Cons.prems(1) by auto
  from rec have rec': "settle seats ib dt es (h(p := settled dt bet (hand_total hnd) (h p)),
      profit + house_delta dt bet (hand_total hnd),
      res @ [\<lparr>result_seat_index = si, player_name = first_name (h p),
              money_delta = house_delta dt bet (hand_total hnd)\<rparr>]) =
        Inr (h', profit', res')"
    by (simp add: settle_hand_eq settled_def)
  from Cons.IH [OF Cons.prems(1) rec'] ne show ?case by simp
qed

text \<open>
  C3. For every round that returns, the balance changes of the players seated at the
  start of the round add up to the negation of the change of the casino profit, which
  is the event's profit delta; the balance of every other player is unchanged.
\<close>

theorem round_is_zero_sum:
  assumes "play_round sh ri h c t pool = Inr (h', c', t', pool', ev)"
  shows "(\<Sum>q\<in>set (seated_players (seats_list t)). money_left (h' q) - money_left (h q)) =
           - (casino_profit c' - casino_profit c) \<and>
         profit_delta ev = casino_profit c' - casino_profit c \<and>
         (\<forall>q. q \<notin> set (seated_players (seats_list t)) \<longrightarrow> money_left (h' q) = money_left (h q))"
proof -
  let ?ss = "seats_list t" and ?S = "set (seated_players (seats_list t))"
  from assms obtain ph d1 dh d2 ph' d3 played dh' d4 h1 profit1 res where
    st: "settle ?ss (gen_bets ri 0 ?ss []) (hand_total dh') ph' (h, casino_profit c, []) =
          Inr (h1, profit1, res)"
    and h': "h' = decrement_rounds ?ss h1"
    and c': "c' = c\<lparr>casino_profit := profit1, total_hands_played := played,
           finished_players := snd (remove_finished_loop h' ?ss (finished_players c))\<rparr>"
    and ev: "ev = \<lparr>event_table_id = table_id t, round_num = current_round_number t,
           initial_bets = gen_bets ri 0 ?ss [], results = res,
           seats_after = map (seat_after h') (seats_list t'),
           profit_delta = profit1 - casino_profit c, hands = ph', dealer_hand = dh'\<rparr>"
    by (rule play_round_Inr)
  have m: "money_left (h' q) = money_left (h1 q)" for q
    by (simp add: h' decrement_rounds_money)
  from settle_conserves [OF _ _ st, of ?S]
  have "(\<Sum>q\<in>?S. money_left (h1 q)) + profit1 = (\<Sum>q\<in>?S. money_left (h q)) + casino_profit c"
    by simp
  then have "(\<Sum>q\<in>?S. money_left (h' q) - money_left (h q)) = - (profit1 - casino_profit c)"
    by (simp add: m sum_subtractf)
  moreover have "money_left (h' q) = money_left (h q)" if "q \<notin> ?S" for q
    using settle_others [OF that st] by (simp add: m)
  ultimately show ?thesis by (simp add: c' ev)
qed

theorem round_is_zero_sum_witness:
  "\<exists>h'. play_round cut_shuffle bets0 h0 c0 t0 [3] = Inr (h', casino_A, table_A, [], event_A) \<and>
     (\<Sum>q\<in>{1, 2, 4}. money_left (h' q) - money_left (h0 q)) = - (50 - 0) \<and>
     profit_delta event_A = 50 \<and> casino_profit casino_A = 50 \<and> casino_profit c0 = 0 \<and>
     money_left (h' 3) = money_left (h0 3)"
proof -
  from round_view_Inr [OF round_A] obtain hA where
    pr: "play_round cut_shuffle bets0 h0 c0 t0 [3] = Inr (hA, casino_A, table_A, [], event_A)"
    by blast
  have s: "set (seated_players (seats_list t0)) = {1, 2, 4}"
    by (simp add: seated_players_def t0_def)
  have v: "profit_delta event_A = 50" "casino_profit casino_A = 50" "casino_profit c0 = 0"
    by (simp_all add: event_A_def casino_A_def c0_def)
  from round_is_zero_sum [OF pr]
  have "(\<Sum>q\<in>{1, 2, 4}. money_left (hA q) - money_left (h0 q)) = - (50 - 0) \<and>
     money_left (hA 3) = money_left (h0 3)"
    unfolding s v by simp
  with pr v show ?thesis by blast
qed

section \<open>Player history\<close>

lemma seated_players_memD:
  "p \<in> set (seated_players ss) \<Longrightarrow> \<exists>i < length ss. player (ss ! i) = Some p"
proof -
  assume "p \<in> set (seated_players ss)"
  then obtain s where s: "s \<in> set ss" "player s \<noteq> None" "p = the (player s)"
    by (auto simp: seated_players_def)
  then obtain i where "i < length ss" "ss ! i = s" by (auto simp: in_set_conv_nth)
  with s show ?thesis by auto
qed

text \<open>
  C6, as stated, fails: the entry appended for a push is \<open>(''push'', 0)\<close>, not the pair of
  the outcome and the seat's bet. In the round below the only player bets 60, holds 20
  against the dealer's 20, and the history gets \<open>(''push'', 0)\<close>.
\<close>

theorem history_entry_is_bet_counterexample:
  "round_view (play_round no_shuffle bets0 h0 c0 t1 []) [1] =
     Inr (players_B, casino_B, table_B, [], event_B) \<and>
   player (seats_list t1 ! 0) = Some 1 \<and> initial_bets event_B = [(0, 60)] \<and>
   results event_B = [\<lparr>result_seat_index = 0, player_name = ''Ann'', money_delta = 0\<rparr>] \<and>
   history (players_B ! 0) = [(''push'', 0)] \<and>
   last (history (players_B ! 0)) \<noteq> (''push'', 60)"
  using round_B by (simp add: t1_def event_B_def players_B_def)

text \<open>
  C6, amended. For every player settled in a round (seats indexed by position, pairwise
  different seated players), one entry is appended as the last entry of the history:
  the outcome paired with the seat's initial bet for a win or a loss, and
  \<open>(''push'', 0)\<close> for a push. The history is then cut to its last five entries, the
  oldest dropped first, so it has at most five entries, in chronological order; and
  every player of the store who had at most five entries before the round has at most
  five after it.
\<close>

theorem history_append_and_trim:
  assumes "play_round sh ri h c t pool = Inr (h', c', t', pool', ev)"
    and "seats_indexed (seats_list t)"
    and "distinct (seated_players (seats_list t))"
    and "i < length (seats_list t)" and "player (seats_list t ! i) = Some p"
  shows "\<exists>b hnd.
      map_of (initial_bets ev) i = Some b \<and> map_of (hands ev) i = Some hnd \<and>
      (let pt = hand_total hnd; dt = hand_total (dealer_hand ev);
           entry = (if 21 < pt then (''loss'', b)
                    else if 21 < dt \<or> dt < pt then (''win'', b)
                    else if pt < dt then (''loss'', b)
                    else (''push'', 0));
           hs = history (h p) @ [entry]
       in history (h' p) = drop (length hs - 5) hs \<and> last (history (h' p)) = entry) \<and>
      length (history (h' p)) \<le> 5 \<and>
      (\<forall>q. length (history (h q)) \<le> 5 \<longrightarrow> length (history (h' q)) \<le> 5)"
proof -
  let ?dt = "hand_total (dealer_hand ev)"
  from assms obtain b hnd where
    s: "map_of (initial_bets ev) i = Some b" "map_of (hands ev) i = Some hnd"
    "h' p = (settled ?dt b (hand_total hnd) (h p))\<lparr>rounds_left := rounds_left (h p) - 1\<rparr>"
    by (rule play_round_seat)
  have hist: "history (h' p) = history (record_outcome (outcome_of ?dt b (hand_total hnd)) (h p))"
    by (simp add: s(3) history_settled)
  have oc: "outcome_of ?dt b (hand_total hnd) =
      (if 21 < hand_total hnd then (''loss'', b)
       else if 21 < ?dt \<or> ?dt < hand_total hnd then (''win'', b)
       else if hand_total hnd < ?dt then (''loss'', b)
       else (''push'', 0))"
    by (simp add: outcome_of_def)
  have a: "history (h' p) =
      drop (length (history (h p) @ [outcome_of ?dt b (hand_total hnd)]) - 5)
        (history (h p) @ [outcome_of ?dt b (hand_total hnd)])"
    unfolding hist by (rule history_record_outcome_drop)
  have l: "last (history (h' p)) = outcome_of ?dt b (hand_total hnd)"
    unfolding hist by (rule last_history_record_outcome)
  have n: "length (history (h' p)) \<le> 5"
    unfolding hist by (rule length_history_record_outcome)
  have all: "length (history (h' q)) \<le> 5" if q: "length (history (h q)) \<le> 5" for q
  proof (cases "q \<in> set (seated_players (seats_list t))")
    case True
    then obtain j where j: "j < length (seats_list t)" "player (seats_list t ! j) = Some q"
      using seated_players_memD by blast
    from assms(1-3) j obtain b' hnd' where
      "h' q = (settled ?dt b' (hand_total hnd') (h q))\<lparr>rounds_left := rounds_left (h q) - 1\<rparr>"
      by (rule play_round_seat)
    then show ?thesis
      by (simp add: history_settled length_history_record_outcome)
  next
    case False
    with play_round_settlement(6) [OF assms(1-3)] have "h' q = h q" by simp
    with q show ?thesis by simp
  qed
  show ?thesis
    apply (rule exI [of _ b], rule exI [of _ hnd])
    using s(1,2) a l n all unfolding oc Let_def
    apply blast
    done
qed

theorem history_append_and_trim_witness:
  "\<exists>h'. play_round no_shuffle bets0 h0 c0 t1 [] = Inr (h', casino_B, table_B, [], event_B) \<and>
     seats_indexed (seats_list t1) \<and> distinct (seated_players (seats_list t1)) \<and>
     (0::nat) < length (seats_list t1) \<and> player (seats_list t1 ! 0) = Some 1 \<and>
     map_of (initial_bets event_B) 0 = Some 60 \<and>
     hand_total (the (map_of (hands event_B) 0)) = hand_total (dealer_hand event_B) \<and>
     history (h0 1) = [] \<and> history (h' 1) = [(''push'', 0)] \<and> length (history (h' 1)) \<le> 5"
proof -
  from round_view_Inr [OF round_B] obtain hB where
    pr: "play_round no_shuffle bets0 h0 c0 t1 [] = Inr (hB, casino_B, table_B, [], event_B)"
    by blast
  have n: "0 < length (seats_list t1)" "player (seats_list t1 ! 0) = Some 1"
    by (simp_all add: t1_def)
  have e: "map_of (initial_bets event_B) 0 = Some 60"
    "map_of (hands event_B) 0 = Some [(''K'', ''Diamond'', 10), (''Q'', ''Diamond'', 10)]"
    "hand_total [(''K'', ''Diamond'', 10), (''Q'', ''Diamond'', 10)] = 20"
    "hand_total (dealer_hand event_B) = 20" "history (h0 1) = []"
    by (simp_all add: event_B_def hand_total_def card_value_def h0_def)
  have "history (hB 1) = [(''push'', 0)] \<and> length (history (hB 1)) \<le> 5"
    using history_append_and_trim [OF pr t1_indexed t1_distinct n]
    by (auto simp: e Let_def h0_def)
  with pr t1_indexed t1_distinct n e show ?thesis by auto
qed

section \<open>Hitting until eighteen\<close>

lemma hits_ok_hand:
  assumes "length a = 2" and "hits_ok a e"
  shows "2 \<le> length (a @ e)"
    and "\<forall>k. 2 \<le> k \<and> k < length (a @ e) \<longrightarrow> hand_total (take k (a @ e)) < 18"
    and "18 \<le> hand_total (a @ e)"
    and "take 2 (a @ e) = a" and "drop 2 (a @ e) = e"
proof -
  show "2 \<le> length (a @ e)" using assms(1) by simp
  show "18 \<le> hand_total (a @ e)" using assms(2) by (simp add: hits_ok_def)
  show "take 2 (a @ e) = a" "drop 2 (a @ e) = e" using assms(1) by simp_all
  show "\<forall>k. 2 \<le> k \<and> k < length (a @ e) \<longrightarrow> hand_total (take k (a @ e)) < 18"
  proof (intro allI impI)
    fix k assume k: "2 \<le> k \<and> k < length (a @ e)"
    then have "k - 2 < length e" using assms(1) by auto
    with assms(2) have "hand_total (a @ take (k - 2) e) < 18" by (simp add: hits_ok_def)
    moreover have "take k (a @ e) = a @ take (k - 2) e" using k assms(1) by simp
    ultimately show "hand_total (take k (a @ e)) < 18" by simp
  qed
qed

lemma hits_ok_hands:
  "length hs = length es \<Longrightarrow> \<forall>x \<in> set hs. length x = 2 \<Longrightarrow> list_all2 hits_ok hs es \<Longrightarrow>
   (\<forall>hnd \<in> set (map (\<lambda>(a, e). a @ e) (zip hs es)).
       2 \<le> length hnd \<and> (\<forall>k. 2 \<le> k \<and> k < length hnd \<longrightarrow> hand_total (take k hnd) < 18) \<and>
       18 \<le> hand_total hnd) \<and>
   map (take 2) (map (\<lambda>(a, e). a @ e) (zip hs es)) = hs \<and>
   map (drop 2) (map (\<lambda>(a, e). a @ e) (zip hs es)) = es"
proof (induction hs es rule: list_induct2)
  case Nil
  then show ?case by simp
next
  case (Cons a hs e es)
  from Cons.prems have a: "length a = 2" "hits_ok a e" by simp_all
  from Cons.prems have "\<forall>x \<in> set hs. length x = 2" "list_all2 hits_ok hs es" by simp_all
  from Cons.IH [OF this] hits_ok_hand [OF a] show ?case by simp
qed

lemma ace_is_eleven: "(''A'', s, v) \<in> set one_deck \<Longrightarrow> v = 11"
  by (auto simp: set_one_deck CARD_LIST_def)

text \<open>
  C4. In a round that returns, on a table whose seats are indexed by position, there is
  one hand per occupied seat. Every such hand and the dealer's hand start with two
  cards and are grown one card at a time: every proper prefix of at least two cards
  totals less than 18, and the final hand totals 18 or more (a bust above 21 included),
  so drawing stops at the first total that is not below 18. The cards leave the end of
  the shuffled shoe in this order: two for each seat in seat order, two for the dealer,
  then the hits of each seat in seat order, then the dealer's hits. A total is the plain
  sum of the card values, and an ace in the shoe always has the value 11. The counter of
  hands played grows by the number of occupied seats; the dealer's hand is not counted.
\<close>

theorem hit_until_eighteen:
  assumes "play_round sh ri h c t pool = Inr (h', c', t', pool', ev)"
    and "seats_indexed (seats_list t)"
  shows "map fst (hands ev) = occupied_indices (seats_list t) \<and>
    (\<forall>(si, hnd) \<in> set (hands ev).
        2 \<le> length hnd \<and>
        (\<forall>k. 2 \<le> k \<and> k < length hnd \<longrightarrow> hand_total (take k hnd) < 18) \<and>
        18 \<le> hand_total hnd) \<and>
    2 \<le> length (dealer_hand ev) \<and>
    (\<forall>k. 2 \<le> k \<and> k < length (dealer_hand ev) \<longrightarrow> hand_total (take k (dealer_hand ev)) < 18) \<and>
    18 \<le> hand_total (dealer_hand ev) \<and>
    (\<exists>rest. shuffle_deck sh (Deck_init 20) =
        rest @ rev (concat (map (\<lambda>(si, hnd). take 2 hnd) (hands ev)) @ take 2 (dealer_hand ev) @
                    concat (map (\<lambda>(si, hnd). drop 2 hnd) (hands ev)) @ drop 2 (dealer_hand ev))) \<and>
    (\<forall>hnd. hand_total hnd = (\<Sum>(rank, suit, v)\<leftarrow>hnd. v)) \<and>
    (\<forall>suit v. (''A'', suit, v) \<in> set one_deck \<longrightarrow> v = 11) \<and>
    total_hands_played c' =
      total_hands_played c + int (length (seated_players (seats_list t)))"
proof -
  let ?oi = "occupied_indices (seats_list t)"
  from assms obtain hs es bs dh de rest where
    f: "length hs = length ?oi" "length es = length hs"
    "\<forall>x \<in> set hs. length x = 2" "length dh = 2"
    "list_all2 hits_ok hs es" "hits_ok dh de"
    "hands ev = zip ?oi (map (\<lambda>(hnd, e). hnd @ e) (zip hs es))"
    "dealer_hand ev = dh @ de"
    "shuffle_deck sh (Deck_init 20) = rest @ rev (concat hs @ dh @ concat es @ de)"
    "total_hands_played c' = total_hands_played c + int (length ?oi)"
    by (rule play_round_hands)
  let ?H = "map (\<lambda>(hnd, e). hnd @ e) (zip hs es)"
  have len: "length ?H = length ?oi" using f(1,2) by simp
  note H = hits_ok_hands [OF f(2) [symmetric] f(3) f(5)]
  have sndH: "map snd (hands ev) = ?H" unfolding f(7) using len by simp
  have keys: "map fst (hands ev) = ?oi" unfolding f(7) using len by simp
  have each: "\<forall>(si, hnd) \<in> set (hands ev).
        2 \<le> length hnd \<and>
        (\<forall>k. 2 \<le> k \<and> k < length hnd \<longrightarrow> hand_total (take k hnd) < 18) \<and>
        18 \<le> hand_total hnd"
  proof (clarify)
    fix si hnd assume "(si, hnd) \<in> set (hands ev)"
    then have "hnd \<in> set (map snd (hands ev))" by force
    then have "hnd \<in> set ?H" by (simp only: sndH)
    with H show "2 \<le> length hnd \<and>
        (\<forall>k. 2 \<le> k \<and> k < length hnd \<longrightarrow> hand_total (take k hnd) < 18) \<and>
        18 \<le> hand_total hnd" by blast
  qed
  have t2: "map (\<lambda>(si, hnd). take 2 hnd) (hands ev) = hs"
  proof -
    have "map (\<lambda>(si, hnd). take 2 hnd) (hands ev) = map (take 2) (map snd (hands ev))"
      by (simp add: case_prod_unfold comp_def)
    then show ?thesis using H by (simp only: sndH)
  qed
  have d2: "map (\<lambda>(si, hnd). drop 2 hnd) (hands ev) = es"
  proof -
    have "map (\<lambda>(si, hnd). drop 2 hnd) (hands ev) = map (drop 2) (map snd (hands ev))"
      by (simp add: case_prod_unfold comp_def)
    then show ?thesis using H by (simp only: sndH)
  qed
  note D = hits_ok_hand [OF f(4) f(6)]
  have order: "\<exists>rest. shuffle_deck sh (Deck_init 20) =
        rest @ rev (concat (map (\<lambda>(si, hnd). take 2 hnd) (hands ev)) @ take 2 (dealer_hand ev) @
                    concat (map (\<lambda>(si, hnd). drop 2 hnd) (hands ev)) @ drop 2 (dealer_hand ev))"
    unfolding t2 d2 f(8) D(4) D(5) using f(9) by blast
  have total: "\<forall>hnd. hand_total hnd = (\<Sum>(rank, suit, v)\<leftarrow>hnd. v)"
    by (simp add: hand_total_sum case_prod_unfold card_value_def [abs_def])
  have ace: "\<forall>suit v. (''A'', suit, v) \<in> set one_deck \<longrightarrow> v = 11"
    using ace_is_eleven by blast
  have cnt: "total_hands_played c' =
      total_hands_played c + int (length (seated_players (seats_list t)))"
    using f(10) by (simp add: length_occupied_seated)
  note dl = D(1,2,3) [folded f(8)]
  show ?thesis
    apply (intro conjI)
            apply (rule keys)
           apply (rule each)
          apply (rule dl(1))
         apply (rule dl(2))
        apply (rule dl(3))
       apply (rule order)
      apply (rule total)
     apply (rule ace)
    apply (rule cnt)
    done
qed

theorem hit_until_eighteen_witness:
  "\<exists>h'. play_round cut_shuffle bets0 h0 c0 t0 [3] = Inr (h', casino_A, table_A, [], event_A) \<and>
     seats_indexed (seats_list t0) \<and>
     map fst (hands event_A) = [0, 2, 3] \<and>
     hand_total (take 2 (dealer_hand event_A)) = 5 \<and>
     hand_total (take 3 (dealer_hand event_A)) = 15 \<and>
     hand_total (dealer_hand event_A) = 25 \<and> length (dealer_hand event_A) = 4 \<and>
     total_hands_played casino_A = total_hands_played c0 + 3"
proof -
  from round_view_Inr [OF round_A] obtain hA where
    pr: "play_round cut_shuffle bets0 h0 c0 t0 [3] = Inr (hA, casino_A, table_A, [], event_A)"
    by blast
  have e: "hand_total (take 2 (dealer_hand event_A)) = 5"
    "hand_total (take 3 (dealer_hand event_A)) = 15"
    "hand_total (dealer_hand event_A) = 25" "length (dealer_hand event_A) = 4"
    by (simp_all add: event_A_def hand_total_def card_value_def)
  have s: "occupied_indices (seats_list t0) = [0, 2, 3]" "length (seated_players (seats_list t0)) = 3"
    by (simp_all add: occupied_indices_def seated_players_def t0_def)
  note T = hit_until_eighteen [OF pr t0_indexed, unfolded s]
  from T have k: "map fst (hands event_A) = [0, 2, 3]"
    by (rule conjunct1)
  from T have n: "total_hands_played casino_A = total_hands_played c0 + int 3"
    by - (elim conjE, assumption)
  from n have n': "total_hands_played casino_A = total_hands_played c0 + 3" by simp
  from pr t0_indexed k e n' show ?thesis
    by - (rule exI [of _ hA], intro conjI, assumption+)
qed

section \<open>Turnover and ownership\<close>

lemma settle_rounds:
  "settle seats ib dt es (h, profit, res) = Inr (h', profit', res') \<Longrightarrow>
   rounds_left (h' q) = rounds_left (h q)"
proof (induction es arbitrary: h profit res)
  case Nil
  then show ?case by simp
next
  case (Cons x es)
  obtain si hnd where x: "x = (si, hnd)" by (cases x)
  from Cons.prems x obtain bet p where
    rec: "settle seats ib dt es (settle_hand dt si p bet (hand_total hnd) (h, profit, res)) =
        Inr (h', profit', res')"
    by (auto split: if_splits option.splits)
  from rec have rec': "settle seats ib dt es (h(p := settled dt bet (hand_total hnd) (h p)),
      profit + house_delta dt bet (hand_total hnd),
      res @ [\<lparr>result_seat_index = si, player_name = first_name (h p),
              money_delta = house_delta dt bet (hand_total hnd)\<rparr>]) =
        Inr (h', profit', res')"
    by (simp add: settle_hand_eq settled_def)
  from Cons.IH [OF rec'] show ?case
    by (simp add: settled_def rounds_left_record_outcome split: if_splits)
qed

text \<open>
  C5. Turnover in a round that returns, read on the store \<open>h'\<close> the round leaves, which
  holds the balances after settlement and the rounds left after the decrement (one less
  for every seated player, when the seated players are pairwise different). Exactly the
  seated players with a balance below 100 or no rounds left are appended, in seat order,
  to the finished pool, and their seats are vacated; a seated player with a negative
  balance is among them whatever rounds are left. Then the vacant seats take the
  players of the waiting pool in order: the vacant seat with \<open>k\<close> vacant seats before it
  gets the \<open>k\<close>-th player of the pool if there is one and stays empty otherwise; the
  occupied seats are unchanged, and the players seated are removed from the front of
  the pool.
\<close>

theorem turnover_evicts_and_refills:
  assumes "play_round sh ri h c t pool = Inr (h', c', t', pool', ev)"
  shows "(let ss = seats_list t;
              mid = map (\<lambda>s. if evicted h' s then s\<lparr>player := None\<rparr> else s) ss;
              free = (\<lambda>i. length (filter vacant (take i mid)))
          in finished_players c' = finished_players c @ seated_players (filter (evicted h') ss) \<and>
             length (seats_list t') = length ss \<and>
             (\<forall>i < length ss. seats_list t' ! i =
                 (if vacant (mid ! i) \<and> free i < length pool
                  then (mid ! i)\<lparr>player := Some (pool ! free i)\<rparr> else mid ! i)) \<and>
             pool' = drop (length (filter vacant mid)) pool \<and>
             (\<forall>s \<in> set ss. \<forall>p. player s = Some p \<and> money_left (h' p) < 0 \<longrightarrow>
                 p \<in> set (finished_players c')) \<and>
             (distinct (seated_players ss) \<longrightarrow>
                (\<forall>p \<in> set (seated_players ss). rounds_left (h' p) = rounds_left (h p) - 1)))"
proof -
  let ?ss = "seats_list t"
  let ?mid = "map (\<lambda>s. if evicted h' s then s\<lparr>player := None\<rparr> else s) ?ss"
  from assms obtain ph d1 dh d2 ph' d3 played dh' d4 h1 profit1 res where
    st: "settle ?ss (gen_bets ri 0 ?ss []) (hand_total dh') ph' (h, casino_profit c, []) =
          Inr (h1, profit1, res)"
    and h': "h' = decrement_rounds ?ss h1"
    and c': "c' = c\<lparr>casino_profit := profit1, total_hands_played := played,
           finished_players := snd (remove_finished_loop h' ?ss (finished_players c))\<rparr>"
    and t': "seats_list t' = fst (fill_empty_loop (fst (remove_finished_loop h' ?ss (finished_players c))) pool)"
    and p': "pool' = snd (fill_empty_loop (fst (remove_finished_loop h' ?ss (finished_players c))) pool)"
    by (rule play_round_Inr)
  have rm: "remove_finished_loop h' ?ss (finished_players c) =
      (?mid, finished_players c @ seated_players (filter (evicted h') ?ss))"
    by (rule remove_finished_loop_spec)
  have a: "finished_players c' = finished_players c @ seated_players (filter (evicted h') ?ss)"
    by (simp add: c' rm)
  have b: "length (seats_list t') = length ?ss"
    by (simp add: t' rm fill_empty_loop_length)
  have d: "pool' = drop (length (filter vacant ?mid)) pool"
    by (simp add: p' rm fill_empty_loop_pool)
  have e: "\<forall>i < length ?ss. seats_list t' ! i =
       (if vacant (?mid ! i) \<and> length (filter vacant (take i ?mid)) < length pool
        then (?mid ! i)\<lparr>player := Some (pool ! length (filter vacant (take i ?mid)))\<rparr>
        else ?mid ! i)"
  proof (intro allI impI)
    fix i assume "i < length ?ss"
    then have "i < length ?mid" by simp
    from fill_empty_loop_nth [OF this, of pool]
    show "seats_list t' ! i =
       (if vacant (?mid ! i) \<and> length (filter vacant (take i ?mid)) < length pool
        then (?mid ! i)\<lparr>player := Some (pool ! length (filter vacant (take i ?mid)))\<rparr>
        else ?mid ! i)"
      by (simp only: t' rm fst_conv)
  qed
  have f: "\<forall>s \<in> set ?ss. \<forall>p. player s = Some p \<and> money_left (h' p) < 0 \<longrightarrow>
       p \<in> set (finished_players c')"
  proof (intro ballI allI impI)
    fix s p assume s: "s \<in> set ?ss" and "player s = Some p \<and> money_left (h' p) < 0"
    then have "evicted h' s" "player s \<noteq> None" "the (player s) = p"
      by (simp_all add: evicted_def)
    with s have "p \<in> set (seated_players (filter (evicted h') ?ss))"
      unfolding seated_players_def by force
    then show "p \<in> set (finished_players c')" by (simp add: a)
  qed
  have g: "distinct (seated_players ?ss) \<longrightarrow>
      (\<forall>p \<in> set (seated_players ?ss). rounds_left (h' p) = rounds_left (h p) - 1)"
  proof (intro impI ballI)
    fix p assume dist: "distinct (seated_players ?ss)" and p: "p \<in> set (seated_players ?ss)"
    then have "h' p = (h1 p)\<lparr>rounds_left := rounds_left (h1 p) - 1\<rparr>"
      by (simp add: h' decrement_rounds_spec)
    then show "rounds_left (h' p) = rounds_left (h p) - 1"
      using settle_rounds [OF st, of p] by simp
  qed
  show ?thesis
    unfolding Let_def
    apply (intro conjI)
         apply (rule a)
        apply (rule b)
       apply (rule e)
      apply (rule d)
     apply (rule f)
    apply (rule g)
    done
qed

theorem turnover_evicts_and_refills_witness:
  "\<exists>h'. play_round cut_shuffle bets0 h0 c0 t0 [3] = Inr (h', casino_A, table_A, [], event_A) \<and>
     map (\<lambda>p. (money_left (h' p), rounds_left (h' p))) [1, 2, 4] = [(90, 2), (80, 2), (230, 2)] \<and>
     seated_players (filter (evicted h') (seats_list t0)) = [1, 2] \<and>
     finished_players casino_A = finished_players c0 @ [1, 2] \<and>
     length (seats_list table_A) = length (seats_list t0) \<and>
     map player (seats_list table_A) = [Some 3, None, None, Some 4]"
proof -
  from round_view_Inr [OF round_A] obtain hA where
    pr: "play_round cut_shuffle bets0 h0 c0 t0 [3] = Inr (hA, casino_A, table_A, [], event_A)"
    and hA: "map hA [1, 2, 3, 4] = players_A"
    by blast
  from hA have "map hA [1, 2, 3, 4] ! 0 = players_A ! 0" "map hA [1, 2, 3, 4] ! 1 = players_A ! 1"
    "map hA [1, 2, 3, 4] ! 3 = players_A ! 3"
    by (simp_all only:)
  then have v: "hA (Suc 0) = players_A ! 0" "hA 2 = players_A ! 1" "hA 4 = players_A ! 3"
    by simp_all
  have m: "map (\<lambda>p. (money_left (hA p), rounds_left (hA p))) [1, 2, 4] = [(90, 2), (80, 2), (230, 2)]"
    by (simp add: v players_A_def)
  have ev: "seated_players (filter (evicted hA) (seats_list t0)) = [1, 2]"
    by (simp add: seated_players_def evicted_def t0_def v players_A_def)
  note T = turnover_evicts_and_refills [OF pr, unfolded Let_def]
  from T have a: "finished_players casino_A =
      finished_players c0 @ seated_players (filter (evicted hA) (seats_list t0))"
    by (rule conjunct1)
  from T have b: "length (seats_list table_A) = length (seats_list t0)"
    by - (elim conjE, assumption)
  have s: "map player (seats_list table_A) = [Some 3, None, None, Some 4]"
    by (simp add: table_A_def)
  from pr m ev a [unfolded ev] b s show ?thesis
    by - (rule exI [of _ hA], intro conjI, assumption+)
qed

text \<open>
  C9. A round that returns keeps the owners of the players: the seated players of the
  table, the waiting pool and the finished pool hold after the round exactly the players
  they held before it, each as often as before. So if no player was held twice before
  the round, by these three or by the seats of the other tables (\<open>others\<close>), none is
  held twice after it. A seat holds one player or none by its type.
\<close>

theorem ownership_is_exclusive:
  assumes "play_round sh ri h c t pool = Inr (h', c', t', pool', ev)"
  shows "mset (seated_players (seats_list t') @ pool' @ finished_players c') =
           mset (seated_players (seats_list t) @ pool @ finished_players c) \<and>
         (distinct (seated_players (seats_list t) @ others @ pool @ finished_players c) \<longrightarrow>
          distinct (seated_players (seats_list t') @ others @ pool' @ finished_players c'))"
proof -
  let ?ss = "seats_list t"
  let ?rm = "remove_finished_loop h' ?ss (finished_players c)"
  from assms obtain ph d1 dh d2 ph' d3 played dh' d4 h1 profit1 res where
    c': "c' = c\<lparr>casino_profit := profit1, total_hands_played := played,
           finished_players := snd ?rm\<rparr>"
    and t': "seats_list t' = fst (fill_empty_loop (fst ?rm) pool)"
    and p': "pool' = snd (fill_empty_loop (fst ?rm) pool)"
    by (rule play_round_Inr)
  have fin: "finished_players c' = snd ?rm" by (simp add: c')
  have 1: "mset (seated_players (seats_list t')) + mset pool' =
      mset (seated_players (fst ?rm)) + mset pool"
    unfolding t' p' by (rule fill_empty_loop_mset)
  have 2: "mset (seated_players (fst ?rm)) + mset (finished_players c') =
      mset (seated_players ?ss) + mset (finished_players c)"
    unfolding fin by (rule remove_finished_loop_mset)
  have "mset (seated_players (seats_list t')) + mset pool' + mset (finished_players c') =
      mset (seated_players (fst ?rm)) + mset (finished_players c') + mset pool"
    using 1 by (simp add: ac_simps)
  also have "\<dots> = mset (seated_players ?ss) + mset pool + mset (finished_players c)"
    using 2 by (simp add: ac_simps)
  finally have eq: "mset (seated_players (seats_list t')) + mset pool' + mset (finished_players c') =
      mset (seated_players ?ss) + mset pool + mset (finished_players c)" .
  then have a: "mset (seated_players (seats_list t') @ pool' @ finished_players c') =
           mset (seated_players ?ss @ pool @ finished_players c)"
    by (simp add: ac_simps)
  have "mset (seated_players (seats_list t') @ others @ pool' @ finished_players c') =
           mset (seated_players ?ss @ others @ pool @ finished_players c)"
    using eq by (simp add: ac_simps)
  then have b: "distinct (seated_players ?ss @ others @ pool @ finished_players c) \<longrightarrow>
          distinct (seated_players (seats_list t') @ others @ pool' @ finished_players c')"
    using mset_eq_imp_distinct_iff by blast
  from a b show ?thesis by (rule conjI)
qed

theorem ownership_is_exclusive_witness:
  "\<exists>h'. play_round cut_shuffle bets0 h0 c0 t0 [3] = Inr (h', casino_A, table_A, [], event_A) \<and>
     seated_players (seats_list t0) @ [7, 8] @ [3] @ finished_players c0 = [1, 2, 4, 7, 8, 3] \<and>
     distinct (seated_players (seats_list t0) @ [7, 8] @ [3] @ finished_players c0) \<and>
     seated_players (seats_list table_A) @ [7, 8] @ [] @ finished_players casino_A =
       [3, 4, 7, 8, 1, 2] \<and>
     distinct (seated_players (seats_list table_A) @ [7, 8] @ [] @ finished_players casino_A)"
proof -
  from round_view_Inr [OF round_A] obtain hA where
    pr: "play_round cut_shuffle bets0 h0 c0 t0 [3] = Inr (hA, casino_A, table_A, [], event_A)"
    by blast
  have l: "seated_players (seats_list t0) @ [7, 8] @ [3] @ finished_players c0 = [1, 2, 4, 7, 8, 3]"
    "seated_players (seats_list table_A) @ [7, 8] @ [] @ finished_players casino_A =
       [3, 4, 7, 8, 1, 2]"
    by (simp_all add: seated_players_def t0_def c0_def table_A_def casino_A_def)
  have d: "distinct (seated_players (seats_list t0) @ [7, 8] @ [3] @ finished_players c0)"
    unfolding l by simp
  from ownership_is_exclusive [OF pr, of "[7, 8]"] d
  have d': "distinct (seated_players (seats_list table_A) @ [7, 8] @ [] @ finished_players casino_A)"
    by blast
  from pr l(1) d l(2) d' show ?thesis
    by - (rule exI [of _ hA], intro conjI, assumption+)
qed

end
